theory Spec2Isabelle
  imports Complex_Main "HOL-Library.Sublist"
begin

section \<open>JavaScript strings\<close>

text \<open>
  A JavaScript string is modelled as a \<^typ>\<open>string\<close>, a list of 8-bit characters. ASCII
  characters stand for themselves, and \<^const>\<open>length\<close> is the \<open>.length\<close> of an ASCII
  string. The whitespace class \<open>\s\<close>, \<open>trim()\<close> and \<open>toLowerCase()\<close> are modelled on
  ASCII; characters above \<open>0x7F\<close> are opaque (never whitespace, never changed by
  \<open>toLowerCase\<close>).
\<close>

definition isSpace :: "char \<Rightarrow> bool" where
  "isSpace c = (c \<in> set [CHR 0x09, CHR 0x0A, CHR 0x0B, CHR 0x0C, CHR 0x0D, CHR '' ''])"

definition isDigit :: "char \<Rightarrow> bool" where
  "isDigit c = (c \<in> set ''0123456789'')"


definition toLowerChar :: "char \<Rightarrow> char" where
  "toLowerChar c =
     (case map_of (zip ''ABCDEFGHIJKLMNOPQRSTUVWXYZ'' ''abcdefghijklmnopqrstuvwxyz'') c of
        Some l \<Rightarrow> l
      | None \<Rightarrow> c)"

definition toLowerCase :: "string \<Rightarrow> string" where
  "toLowerCase s = map toLowerChar s"

definition trimStart :: "string \<Rightarrow> string" where
  "trimStart s = dropWhile isSpace s"

definition trimEnd :: "string \<Rightarrow> string" where
  "trimEnd s = rev (dropWhile isSpace (rev s))"

definition trim :: "string \<Rightarrow> string" where
  "trim s = trimEnd (trimStart s)"

text \<open>
  \<open>s.replace(/C+/g, " ")\<close> for a character class \<open>C\<close>: every maximal run of characters
  of the class becomes one space.
\<close>

function collapseRuns :: "(char \<Rightarrow> bool) \<Rightarrow> string \<Rightarrow> string" where
  "collapseRuns P [] = []"
| "collapseRuns P (c # cs) =
     (if P c then CHR '' '' # collapseRuns P (dropWhile P cs) else c # collapseRuns P cs)"
  by pat_completeness auto
termination
  by (relation "measure (\<lambda>(P, s). length s)")
     (auto simp: length_dropWhile_le intro: le_imp_less_Suc)

definition isLineBreak :: "char \<Rightarrow> bool" where
  "isLineBreak c = (c = CHR 0x0D \<or> c = CHR 0x0A)"

text \<open>\<open>s.includes(t)\<close> and \<open>s.startsWith(t)\<close>.\<close>

fun includesStr :: "string \<Rightarrow> string \<Rightarrow> bool" where
  "includesStr [] t = (t = [])"
| "includesStr (c # cs) t = (prefix t (c # cs) \<or> includesStr cs t)"

definition startsWith :: "string \<Rightarrow> string \<Rightarrow> bool" where
  "startsWith s t = prefix t s"

text \<open>
  The pieces of a string between the characters of a class, one piece more than there are
  such characters, so the result is never empty. \<open>s.split(d)\<close> for a one-character
  separator \<open>d\<close> is \<open>splitOn d s\<close>.
\<close>

fun splitBy :: "(char \<Rightarrow> bool) \<Rightarrow> string \<Rightarrow> string list" where
  "splitBy P [] = [[]]"
| "splitBy P (c # cs) =
     (if P c then [] # splitBy P cs
      else (case splitBy P cs of w # ws \<Rightarrow> (c # w) # ws | [] \<Rightarrow> [[c]]))"

definition splitOn :: "char \<Rightarrow> string \<Rightarrow> string list" where
  "splitOn d s = splitBy (\<lambda>c. c = d) s"

text \<open>\<open>xs.join(sep)\<close>.\<close>

fun join :: "string \<Rightarrow> string list \<Rightarrow> string" where
  "join sep [] = []"
| "join sep [x] = x"
| "join sep (x # y # ys) = x @ sep @ join sep (y # ys)"

section \<open>JavaScript values read from JSON\<close>

text \<open>
  The values \<open>JSON.parse\<close> returns. A number is the rational it denotes (\<open>JSON.parse\<close>
  yields no \<open>NaN\<close>); an object is the list of its own properties. \<open>undefined\<close> is not a
  JSON value: an expression that may be \<open>undefined\<close> has type \<open>json option\<close>, and
  \<^term>\<open>None\<close> is \<open>undefined\<close>.
\<close>

datatype json =
    JNull
  | JBool bool
  | JNum rat
  | JStr string
  | JArr "json list"
  | JObj "(string \<times> json) list"

text \<open>Truthiness, as \<open>&&\<close>, \<open>||\<close> and \<open>filter\<close> test it.\<close>

fun truthy :: "json option \<Rightarrow> bool" where
  "truthy None = False"
| "truthy (Some JNull) = False"
| "truthy (Some (JBool b)) = b"
| "truthy (Some (JNum n)) = (n \<noteq> 0)"
| "truthy (Some (JStr s)) = (s \<noteq> [])"
| "truthy (Some (JArr xs)) = True"
| "truthy (Some (JObj kvs)) = True"

text \<open>\<open>Array.isArray\<close>.\<close>

fun isArray :: "json option \<Rightarrow> bool" where
  "isArray (Some (JArr xs)) = True"
| "isArray _ = False"

fun elements :: "json option \<Rightarrow> json list" where
  "elements (Some (JArr xs)) = xs"
| "elements _ = []"

text \<open>
  The property read \<open>v.k\<close> on a value other than \<open>null\<close>, for the keys the source reads
  (none of them is a property of a prototype): an own property of an object, \<open>undefined\<close>
  on everything else. Reading a property of \<open>null\<close> throws a \<open>TypeError\<close>; each caller
  below says where that can happen.
\<close>

fun property :: "json \<Rightarrow> string \<Rightarrow> json option" where
  "property (JObj kvs) k = map_of kvs k"
| "property _ k = None"

section \<open>errorHandling: correlation context and errors\<close>

text \<open>\<open>interface CorrelationContext\<close>; the metadata bag is only logged and is left out.\<close>

record CorrelationContext =
  correlationId :: string
  operationName :: string
  startTime :: int

text \<open>
  What a \<open>catch\<close> can receive. \<open>ActionAgentError message correlationId operationName
  isRetryable statusCode\<close> is the class of that name (its \<open>cause\<close>, kept for logging only,
  is left out); \<open>Error message\<close> is any other \<open>Error\<close>, a \<open>TypeError\<close> or \<open>SyntaxError\<close>
  included; \<open>Thrown s\<close> is a thrown value that is not an \<open>Error\<close>, with \<open>String(value) = s\<close>.
\<close>

datatype js_error =
    ActionAgentError string string string bool "int option"
  | Error string
  | Thrown string

fun errorMessage :: "js_error \<Rightarrow> string" where
  "errorMessage (ActionAgentError m c n r st) = m"
| "errorMessage (Error m) = m"
| "errorMessage (Thrown s) = s"

fun errorCorrelationId :: "js_error \<Rightarrow> string option" where
  "errorCorrelationId (ActionAgentError m c n r st) = Some c"
| "errorCorrelationId _ = None"

text \<open>
  \<open>new ActionAgentError(message, context, options)\<close>: \<open>isRetryable\<close> defaults to false.
\<close>

definition newActionAgentError ::
  "string \<Rightarrow> CorrelationContext \<Rightarrow> bool option \<Rightarrow> int option \<Rightarrow> js_error" where
  "newActionAgentError message context isRetryable statusCode =
     ActionAgentError message (correlationId context) (operationName context)
       (case isRetryable of None \<Rightarrow> False | Some b \<Rightarrow> b) statusCode"

section \<open>errorHandling: retry with exponential backoff\<close>

record RetryConfig =
  maxAttempts :: nat
  baseDelayMs :: rat
  maxDelayMs :: rat
  jitterFactor :: rat

text \<open>\<open>config.features\<close>, as far as the retry wrapper reads it.\<close>

record Features =
  enableRetries :: bool
  maxRetries :: nat
  retryDelayMs :: rat

definition defaultRetryConfig :: "Features \<Rightarrow> RetryConfig" where
  "defaultRetryConfig features =
     \<lparr>maxAttempts = maxRetries features, baseDelayMs = retryDelayMs features,
      maxDelayMs = 30000, jitterFactor = 2 / 10\<rparr>"

text \<open>
  \<open>Partial<RetryConfig>\<close>, a component being \<^term>\<open>None\<close> when the key is absent, and the
  spread \<open>{ ...defaultRetryConfig, ...retryConfig }\<close>.
\<close>

type_synonym PartialRetryConfig = "nat option \<times> rat option \<times> rat option \<times> rat option"

fun mergeRetryConfig :: "RetryConfig \<Rightarrow> PartialRetryConfig \<Rightarrow> RetryConfig" where
  "mergeRetryConfig d (ma, bd, md, jf) =
     \<lparr>maxAttempts = (case ma of None \<Rightarrow> maxAttempts d | Some v \<Rightarrow> v),
      baseDelayMs = (case bd of None \<Rightarrow> baseDelayMs d | Some v \<Rightarrow> v),
      maxDelayMs = (case md of None \<Rightarrow> maxDelayMs d | Some v \<Rightarrow> v),
      jitterFactor = (case jf of None \<Rightarrow> jitterFactor d | Some v \<Rightarrow> v)\<rparr>"

text \<open>
  \<open>calculateBackoffDelay(attempt, config)\<close>, called with \<open>attempt \<ge> 1\<close>. The arithmetic is
  exact (rationals for the source's doubles), and the value of \<open>Math.random()\<close> is the
  argument \<open>random\<close>. \<open>cappedDelay\<close> is the local of that name.
\<close>

definition cappedDelay :: "nat \<Rightarrow> RetryConfig \<Rightarrow> rat" where
  "cappedDelay attempt config =
     (let exponentialDelay = baseDelayMs config * 2 ^ (attempt - 1)
      in min exponentialDelay (maxDelayMs config))"

definition calculateBackoffDelay :: "nat \<Rightarrow> RetryConfig \<Rightarrow> rat \<Rightarrow> int" where
  "calculateBackoffDelay attempt config random =
     (let jitter = cappedDelay attempt config * jitterFactor config * (random - 1 / 2)
      in \<lfloor>cappedDelay attempt config + jitter\<rfloor>)"

text \<open>
  The first match of \<open>/status[:\s]+(\d{3})/\<close> in a lower-cased message, as the number its
  group reads: \<open>matchStatusHere\<close> is the match that starts at the head of the string.
\<close>

definition decimal :: "string \<Rightarrow> nat" where
  "decimal ds = foldl (\<lambda>n c. 10 * n + (of_char c - 48)) 0 ds"

definition matchStatusHere :: "string \<Rightarrow> nat option" where
  "matchStatusHere s =
     (if prefix ''status'' s then
        (let rest = drop 6 s;
             after = dropWhile (\<lambda>c. c = CHR '':'' \<or> isSpace c) rest
         in if length after < length rest \<and> 3 \<le> length after \<and> list_all isDigit (take 3 after)
            then Some (decimal (take 3 after)) else None)
      else None)"

fun statusMatch :: "string \<Rightarrow> nat option" where
  "statusMatch [] = None"
| "statusMatch (c # cs) =
     (case matchStatusHere (c # cs) of Some n \<Rightarrow> Some n | None \<Rightarrow> statusMatch cs)"

definition retryableStatusCodes :: "nat list" where
  "retryableStatusCodes = [408, 429, 500, 502, 503, 504]"

fun isRetryableError :: "js_error \<Rightarrow> bool" where
  "isRetryableError (ActionAgentError m c n r st) = r"
| "isRetryableError (Error m) =
     (let message = toLowerCase m in
      if includesStr message ''timeout'' \<or> includesStr message ''econnreset''
         \<or> includesStr message ''econnrefused'' \<or> includesStr message ''rate limit''
         \<or> includesStr message ''too many requests''
         \<or> includesStr message ''service unavailable''
         \<or> includesStr message ''gateway timeout''
      then True
      else (case statusMatch message of
              Some status \<Rightarrow> status \<in> set retryableStatusCodes
            | None \<Rightarrow> False))"
| "isRetryableError (Thrown s) = False"

text \<open>\<open>error instanceof Error ? error : new Error(String(error))\<close>.\<close>

fun asError :: "js_error \<Rightarrow> js_error" where
  "asError (Thrown s) = Error s"
| "asError e = e"

text \<open>
  The \<open>for\<close> loop of \<open>withRetry\<close>. \<open>operation i\<close> is the outcome of the \<open>i\<close>-th invocation of
  the operation (the operation may be stateful, as a stub that fails twice is), \<open>random n\<close>
  is what \<open>Math.random()\<close> returns for the delay after attempt \<open>n\<close>. The loop returns the
  result or \<open>lastError\<close>, with the number of invocations made and the delays slept, in
  order.
\<close>

function retryLoop ::
  "RetryConfig \<Rightarrow> (nat \<Rightarrow> js_error + 'a) \<Rightarrow> (nat \<Rightarrow> rat) \<Rightarrow> nat \<Rightarrow> js_error option
     \<Rightarrow> nat \<Rightarrow> int list \<Rightarrow> (js_error option + 'a) \<times> nat \<times> int list" where
  "retryLoop cfg operation random attempt lastError calls slept =
     (if attempt \<le> maxAttempts cfg then
        (case operation (Suc calls) of
           Inr result \<Rightarrow> (Inr result, Suc calls, slept)
         | Inl error \<Rightarrow>
             (let shouldRetry = (attempt < maxAttempts cfg \<and> isRetryableError error) in
              if shouldRetry
              then retryLoop cfg operation random (Suc attempt) (Some (asError error)) (Suc calls)
                     (slept @ [calculateBackoffDelay attempt cfg (random attempt)])
              else (Inl (Some (asError error)), Suc calls, slept)))
      else (Inl lastError, calls, slept))"
  by pat_completeness auto
termination
  by (relation "measure (\<lambda>(cfg, operation, random, attempt, lastError, calls, slept).
        Suc (maxAttempts cfg) - attempt)") auto

text \<open>
  \<open>withRetry(operation, context, retryConfig)\<close>: the outcome, the number of invocations
  of the operation, and the delays slept. With retries disabled the operation's own
  outcome is returned.
\<close>

definition withRetry ::
  "Features \<Rightarrow> (nat \<Rightarrow> rat) \<Rightarrow> (nat \<Rightarrow> js_error + 'a) \<Rightarrow> CorrelationContext
     \<Rightarrow> PartialRetryConfig \<Rightarrow> (js_error + 'a) \<times> nat \<times> int list" where
  "withRetry features random operation context retryConfig =
     (let cfg = mergeRetryConfig (defaultRetryConfig features) retryConfig in
      if \<not> enableRetries features then (operation 1, 1, [])
      else
        (case retryLoop cfg operation random 1 None 0 [] of
           (Inr result, calls, slept) \<Rightarrow> (Inr result, calls, slept)
         | (Inl lastError, calls, slept) \<Rightarrow>
             (Inl (newActionAgentError
                    (case lastError of
                       None \<Rightarrow> ''Operation failed after retries''
                     | Some e \<Rightarrow>
                         if errorMessage e = [] then ''Operation failed after retries''
                         else errorMessage e)
                    context (Some False) None),
              calls, slept)))"

section \<open>aiService: normalisers of the type and priority fields\<close>

text \<open>
  \<open>validateWorkItemType(type)\<close> and \<open>validatePriority(priority)\<close>. The parameters are
  declared as strings, but the caller passes \<open>item.type\<close> and \<open>item.priority\<close> as they come
  out of \<open>JSON.parse\<close>, so the argument is any JSON value or \<open>undefined\<close> (\<^term>\<open>None\<close>).
  A call that throws has the result \<^term>\<open>None\<close>; a call that returns has the result
  \<open>Some\<close> of the string literal returned.

  \<open>optionalLowerCase v\<close> is \<open>v?.toLowerCase()\<close>: \<open>undefined\<close> for \<open>undefined\<close> and \<open>null\<close>, the
  lower-cased string for a string, and a \<open>TypeError\<close> for a value of any other kind, which
  has no method \<open>toLowerCase\<close>.
\<close>

fun optionalLowerCase :: "json option \<Rightarrow> string option option" where
  "optionalLowerCase None = Some None"
| "optionalLowerCase (Some JNull) = Some None"
| "optionalLowerCase (Some (JStr s)) = Some (Some (toLowerCase s))"
| "optionalLowerCase (Some v) = None"

definition validateWorkItemType :: "json option \<Rightarrow> string option" where
  "validateWorkItemType type =
     (case optionalLowerCase type of
        None \<Rightarrow> None
      | Some normalized \<Rightarrow>
          Some (if normalized = Some ''bug'' \<or> normalized = Some ''defect''
                   \<or> normalized = Some ''fix''
                then ''Bug''
                else if normalized = Some ''user story'' \<or> normalized = Some ''story''
                        \<or> normalized = Some ''feature''
                then ''User Story''
                else ''Task''))"

definition validatePriority :: "json option \<Rightarrow> string option" where
  "validatePriority priority =
     (case optionalLowerCase priority of
        None \<Rightarrow> None
      | Some normalized \<Rightarrow>
          Some (if normalized = Some ''high'' \<or> normalized = Some ''critical''
                   \<or> normalized = Some ''urgent'' \<or> normalized = Some ''1''
                then ''High''
                else if normalized = Some ''low'' \<or> normalized = Some ''minor''
                        \<or> normalized = Some ''3''
                then ''Low''
                else ''Medium''))"



section \<open>The ActionItem model\<close>

text \<open>
  \<open>interface ActionItem\<close>. The interface declares \<open>assignedTo\<close>, \<open>description\<close> and
  \<open>deadline\<close> as strings, the last two optional (\<^term>\<open>None\<close> is \<open>undefined\<close>). Code that
  takes an \<open>ActionItem\<close> is modelled on \<open>string ActionItem\<close>. The validator builds its
  items from unchecked \<open>JSON.parse\<close> output, so its result carries JSON values in these
  three fields: the type parameter is the type of the values held there.
\<close>

record 'v ActionItem =
  title :: string
  assignedTo :: 'v
  type :: string
  priority :: string
  description :: "'v option"
  deadline :: "'v option"

section \<open>aiService: deduplicateItems\<close>



text \<open>
  A JavaScript \<open>Map\<close> iterates in insertion order, and \<open>set\<close> on a key that is present
  replaces the value where the key stands: the map is an association list with distinct
  keys.
\<close>

fun mapSet :: "('k \<times> 'a) list \<Rightarrow> 'k \<Rightarrow> 'a \<Rightarrow> ('k \<times> 'a) list" where
  "mapSet [] k v = [(k, v)]"
| "mapSet ((k', v') # m) k v = (if k' = k then (k, v) # m else (k', v') # mapSet m k v)"



text \<open>The distinct elements of a list, in the order of their first occurrence.\<close>

fun firstSeen :: "'a list \<Rightarrow> 'a list" where
  "firstSeen [] = []"
| "firstSeen (x # xs) = x # firstSeen (filter (\<lambda>y. y \<noteq> x) xs)"

section \<open>aiService: parseAndValidateResponse\<close>

definition sanitizeTitle :: "string \<Rightarrow> string" where
  "sanitizeTitle t =
     collapseRuns isSpace (collapseRuns isLineBreak (take 255 (trim t)))"

text \<open>\<open>v || d\<close>.\<close>

definition orElse :: "json option \<Rightarrow> json option \<Rightarrow> json option" where
  "orElse v d = (if truthy v then v else d)"

text \<open>
  The filter predicate \<open>item && typeof item.title === "string" && item.title.trim().length > 0\<close>.
  The property is read only when \<open>item\<close> is truthy, so never on \<open>null\<close>.
\<close>

definition hasTitle :: "json \<Rightarrow> bool" where
  "hasTitle item =
     (truthy (Some item) \<and>
      (case property item ''title'' of Some (JStr t) \<Rightarrow> length (trim t) > 0 | _ \<Rightarrow> False))"

text \<open>
  The body of the \<open>map\<close> callback; \<^term>\<open>None\<close> is a \<open>TypeError\<close> thrown by it.
  \<open>sanitizeTitle\<close> calls \<open>title.trim()\<close>, which throws on a title that is not a string
  (the filter has removed those items), and each normaliser throws on a field value that
  is neither a string nor absent.
\<close>

definition validateItem :: "json \<Rightarrow> json ActionItem option" where
  "validateItem item =
     (case property item ''title'' of
        Some (JStr t) \<Rightarrow>
          (case validateWorkItemType (property item ''type'') of
             None \<Rightarrow> None
           | Some ty \<Rightarrow>
              (case validatePriority (property item ''priority'') of
                 None \<Rightarrow> None
               | Some pr \<Rightarrow>
                   Some \<lparr>title = sanitizeTitle t,
                         assignedTo = the (orElse (property item ''assignedTo'')
                                             (Some (JStr ''Unassigned''))),
                         type = ty,
                         priority = pr,
                         description = orElse (property item ''description'') (Some (JStr [])),
                         deadline = orElse (property item ''deadline'') None\<rparr>))
      | _ \<Rightarrow> None)"

text \<open>\<open>xs.map(f)\<close> for a callback that can throw: the first throw ends the call.\<close>

fun mapThrowing :: "('a \<Rightarrow> 'b option) \<Rightarrow> 'a list \<Rightarrow> 'b list option" where
  "mapThrowing f [] = Some []"
| "mapThrowing f (x # xs) =
     (case f x of
        None \<Rightarrow> None
      | Some y \<Rightarrow> (case mapThrowing f xs of None \<Rightarrow> None | Some ys \<Rightarrow> Some (y # ys)))"

record ActionItemsResponse =
  actionItems :: "json ActionItem list"
  summary :: "json option"

text \<open>
  \<open>parseAndValidateResponse(content, context)\<close>. \<open>JSON.parse\<close> is the platform's: it is the
  parameter \<open>JSON_parse\<close>, whose result \<^term>\<open>None\<close> is the \<open>SyntaxError\<close> it throws. The
  whole body stands in one \<open>try\<close> block, and the \<open>catch\<close> turns whatever is thrown into
  the one \<open>ActionAgentError\<close>: the \<open>SyntaxError\<close> of \<open>JSON.parse\<close>, the \<open>TypeError\<close> of
  reading \<open>parsed.actionItems\<close> when \<open>parsed\<close> is \<open>null\<close>, and a \<open>TypeError\<close> of the \<open>map\<close>
  callback.
\<close>

definition validatedResponse ::
  "CorrelationContext \<Rightarrow> json list \<Rightarrow> json option \<Rightarrow> js_error + ActionItemsResponse" where
  "validatedResponse context items summ =
     (case mapThrowing validateItem (filter hasTitle items) of
        None \<Rightarrow> Inl (newActionAgentError ''Failed to parse AI response as JSON'' context None None)
      | Some validatedItems \<Rightarrow> Inr \<lparr>actionItems = validatedItems, summary = summ\<rparr>)"

definition parseAndValidateResponse ::
  "(string \<Rightarrow> json option) \<Rightarrow> string \<Rightarrow> CorrelationContext
     \<Rightarrow> js_error + ActionItemsResponse" where
  "parseAndValidateResponse JSON_parse content context =
     (case JSON_parse content of
        None \<Rightarrow> Inl (newActionAgentError ''Failed to parse AI response as JSON'' context None None)
      | Some parsed \<Rightarrow>
          if isArray (Some parsed) then validatedResponse context (elements (Some parsed)) None
          else if parsed = JNull
          then Inl (newActionAgentError ''Failed to parse AI response as JSON'' context None None)
          else if truthy (property parsed ''actionItems'') \<and> isArray (property parsed ''actionItems'')
          then validatedResponse context (elements (property parsed ''actionItems''))
                 (property parsed ''summary'')
          else if truthy (property parsed ''tasks'') \<and> isArray (property parsed ''tasks'')
          then validatedResponse context (elements (property parsed ''tasks''))
                 (property parsed ''summary'')
          else Inr \<lparr>actionItems = [], summary = None\<rparr>)"

section \<open>aiService: splitIntoChunks\<close>

text \<open>
  \<open>text.split(/(?<=[.!?])\s+/)\<close>: a separator is a maximal run of whitespace that follows
  one of \<open>.\<close>, \<open>!\<close>, \<open>?\<close>. \<open>splitSentences piece rest\<close> splits \<open>rest\<close>, \<open>piece\<close> being the
  part of the current sentence already read; the character before the run is the last
  one of \<open>piece\<close>.
\<close>

definition isSentenceEnd :: "char \<Rightarrow> bool" where
  "isSentenceEnd c = (c \<in> set ''.!?'')"

function splitSentences :: "string \<Rightarrow> string \<Rightarrow> string list" where
  "splitSentences piece [] = [piece]"
| "splitSentences piece (c # cs) =
     (if isSpace c \<and> piece \<noteq> [] \<and> isSentenceEnd (last piece)
      then piece # splitSentences [] (dropWhile isSpace cs)
      else splitSentences (piece @ [c]) cs)"
  by pat_completeness auto
termination
  by (relation "measure (\<lambda>(piece, rest). length rest)")
     (auto simp: length_dropWhile_le intro: le_imp_less_Suc)

text \<open>
  The inner loop over the words of a sentence that is too long, on the state
  \<open>(chunks, wordChunk)\<close>.
\<close>

fun packWords :: "nat \<Rightarrow> string list \<Rightarrow> string list \<times> string \<Rightarrow> string list \<times> string" where
  "packWords maxLength [] (chunks, wordChunk) = (chunks, wordChunk)"
| "packWords maxLength (word # words) (chunks, wordChunk) =
     (if length wordChunk + length word > maxLength
      then packWords maxLength words (chunks @ [trim wordChunk], word @ '' '')
      else packWords maxLength words (chunks, wordChunk @ word @ '' ''))"

text \<open>The outer loop over the sentences, on the state \<open>(chunks, currentChunk)\<close>.\<close>

fun packSentences ::
  "nat \<Rightarrow> string list \<Rightarrow> string list \<times> string \<Rightarrow> string list \<times> string" where
  "packSentences maxLength [] (chunks, currentChunk) = (chunks, currentChunk)"
| "packSentences maxLength (sentence # sentences) (chunks, currentChunk) =
     (if length currentChunk + length sentence > maxLength then
        (let (chunks1, current1) =
               (if length currentChunk > 0 then (chunks @ [trim currentChunk], [])
                else (chunks, currentChunk))
         in if length sentence > maxLength then
              (case packWords maxLength (splitOn (CHR '' '') sentence) (chunks1, []) of
                 (chunks2, wordChunk) \<Rightarrow>
                   packSentences maxLength sentences
                     (chunks2, if trim wordChunk \<noteq> [] then wordChunk else current1))
            else packSentences maxLength sentences (chunks1, sentence @ '' ''))
      else packSentences maxLength sentences (chunks, currentChunk @ sentence @ '' ''))"

definition splitIntoChunks :: "string \<Rightarrow> nat \<Rightarrow> string list" where
  "splitIntoChunks text' maxLength =
     (case packSentences maxLength (splitSentences [] text') ([], []) of
        (chunks, currentChunk) \<Rightarrow>
          if trim currentChunk \<noteq> [] then chunks @ [trim currentChunk] else chunks)"

text \<open>
  To compare texts up to the whitespace at the boundaries of words: the words of a text,
  which are its maximal runs of characters other than whitespace, in order. The invariant
  of both loops on the chunk under construction: it is empty, or it ends with the space
  the loop has appended and is at most one character longer than the threshold.
\<close>

definition wordsOf :: "string \<Rightarrow> string list" where
  "wordsOf s = filter (\<lambda>w. w \<noteq> []) (splitBy isSpace s)"

definition fitsChunk :: "nat \<Rightarrow> string \<Rightarrow> bool" where
  "fitsChunk maxLength chunk =
     (chunk = [] \<or> (length chunk \<le> Suc maxLength \<and> last chunk = CHR '' ''))"

section \<open>graphService: parseVttToText\<close>

text \<open>
  The match of \<open>/<v ([^>]+)>(.+?)(?:<\/v>)?$/\<close> that starts at the head of a string, as its
  two groups. After \<open><v\<close> and a space the first group runs to the first \<open>>\<close>; the rest
  of the string must be non-empty and free of line terminators, which \<open>.\<close> does not match;
  the lazy second group leaves a closing \<open></v>\<close> out when something comes before it.
  \<open>speakerMatch\<close> is the leftmost match, which is what \<open>String.prototype.match\<close> returns.
\<close>

definition speakerMatchHere :: "string \<Rightarrow> (string \<times> string) option" where
  "speakerMatchHere s =
     (if prefix ''<v '' s then
        (let r = drop 3 s;
             name = takeWhile (\<lambda>c. c \<noteq> CHR ''>'') r;
             rest = dropWhile (\<lambda>c. c \<noteq> CHR ''>'') r
         in if name \<noteq> [] \<and> rest \<noteq> [] then
              (let body = tl rest
               in if body \<noteq> [] \<and> list_all (\<lambda>c. \<not> isLineBreak c) body
                  then Some (name,
                         if suffix ''</v>'' body \<and> length body > 4
                         then take (length body - 4) body else body)
                  else None)
            else None)
      else None)"

fun speakerMatch :: "string \<Rightarrow> (string \<times> string) option" where
  "speakerMatch [] = None"
| "speakerMatch (c # cs) =
     (case speakerMatchHere (c # cs) of Some m \<Rightarrow> Some m | None \<Rightarrow> speakerMatch cs)"

text \<open>\<open>t.replace(/<\/v>$/, "")\<close>.\<close>

definition dropClosingTag :: "string \<Rightarrow> string" where
  "dropClosingTag t = (if suffix ''</v>'' t then take (length t - 4) t else t)"

text \<open>The loop over the lines, on the state \<open>(textLines, currentSpeaker)\<close>.\<close>

fun vttLines :: "string list \<Rightarrow> string list \<times> string \<Rightarrow> string list \<times> string" where
  "vttLines [] (textLines, currentSpeaker) = (textLines, currentSpeaker)"
| "vttLines (line # lines) (textLines, currentSpeaker) =
     (let trimmed = trim line in
      if trimmed = [] \<or> trimmed = ''WEBVTT'' \<or> startsWith trimmed ''NOTE''
      then vttLines lines (textLines, currentSpeaker)
      else if includesStr trimmed '' --> ''
      then vttLines lines (textLines, currentSpeaker)
      else if list_all isDigit trimmed
      then vttLines lines (textLines, currentSpeaker)
      else
        (case speakerMatch trimmed of
           Some (speaker, matched) \<Rightarrow>
             (let text' = dropClosingTag matched in
              if speaker \<noteq> currentSpeaker
              then vttLines lines (textLines @ [CHR 0x0A # speaker @ '':'', text'], speaker)
              else vttLines lines (textLines @ [text'], currentSpeaker))
         | None \<Rightarrow>
             if length trimmed > 0 then vttLines lines (textLines @ [trimmed], currentSpeaker)
             else vttLines lines (textLines, currentSpeaker)))"

definition parseVttToText :: "string \<Rightarrow> string" where
  "parseVttToText vttContent =
     (if vttContent = [] then []
      else
        (case vttLines (splitOn (CHR 0x0A) vttContent) ([], []) of
           (textLines, currentSpeaker) \<Rightarrow>
             trim (collapseRuns isSpace (join '' '' textLines))))"

text \<open>
  A text in which every whitespace character is a space and no two spaces are adjacent,
  as \<open>replace(/\s+/g, " ")\<close> leaves it.
\<close>

fun singleSpaced :: "string \<Rightarrow> bool" where
  "singleSpaced [] = True"
| "singleSpaced [c] = (\<not> isSpace c \<or> c = CHR '' '')"
| "singleSpaced (c # d # cs) =
     ((\<not> isSpace c \<or> (c = CHR '' '' \<and> \<not> isSpace d)) \<and> singleSpaced (d # cs))"

section \<open>identityService: resolveUser and resolveUsers\<close>

text \<open>\<open>interface ResolvedUser\<close> (its \<open>id\<close> is \<open>id'\<close> here) and \<open>interface ResolutionResult\<close>.\<close>

record ResolvedUser =
  displayName :: string
  userPrincipalName :: string
  mail :: "string option"
  id' :: string
  confidence :: string

record ResolutionResult =
  originalName :: string
  resolved :: bool
  user :: "ResolvedUser option"
  alternatives :: "ResolvedUser list option"
  error :: "string option"

text \<open>
  \<open>resolveUser(name)\<close>. \<open>searchUsersByName\<close> queries the directory and keeps the cache: it is
  the parameter \<open>search\<close>, a function of the state \<open>'s\<close> of the directory and the cache
  that returns the users found, or what it throws, and the new state.
\<close>

definition resolveUser ::
  "('s \<Rightarrow> string \<Rightarrow> (js_error + ResolvedUser list) \<times> 's) \<Rightarrow> 's \<Rightarrow> string
     \<Rightarrow> ResolutionResult \<times> 's" where
  "resolveUser search s name =
     (if name = [] \<or> toLowerCase name = ''unassigned''
      then (\<lparr>originalName = name, resolved = False, user = None, alternatives = None,
              error = None\<rparr>, s)
      else
        (case search s name of
           (Inl e, s') \<Rightarrow>
             (\<lparr>originalName = name, resolved = False, user = None, alternatives = None,
               error = Some (case e of Thrown v \<Rightarrow> ''Unknown error'' | _ \<Rightarrow> errorMessage e)\<rparr>,
              s')
         | (Inr [], s') \<Rightarrow>
             (\<lparr>originalName = name, resolved = False, user = None, alternatives = None,
               error = Some ''No matching users found''\<rparr>, s')
         | (Inr [u], s') \<Rightarrow>
             (\<lparr>originalName = name, resolved = True, user = Some u, alternatives = None,
               error = None\<rparr>, s')
         | (Inr (u # rest), s') \<Rightarrow>
             (\<lparr>originalName = name, resolved = True, user = Some u,
               alternatives = Some rest, error = None\<rparr>, s')))"

text \<open>
  \<open>Promise.all(batch.map(f))\<close> for an \<open>f\<close> that never rejects, and
  \<open>Promise.allSettled(batch.map(f))\<close>: the calls start in the order of the batch, and the
  model runs them in that order, each on the state the one before has left.
\<close>

fun settleAll :: "('s \<Rightarrow> 'a \<Rightarrow> 'r \<times> 's) \<Rightarrow> 's \<Rightarrow> 'a list \<Rightarrow> 'r list \<times> 's" where
  "settleAll f s [] = ([], s)"
| "settleAll f s (x # xs) =
     (case f s x of (r, s') \<Rightarrow> (case settleAll f s' xs of (rs, s'') \<Rightarrow> (r # rs, s'')))"

text \<open>
  The inner loop \<open>for (j ...) results.set(batch[j], batchResults[j])\<close>, and the outer loop
  over \<open>uniqueNames\<close> in steps of \<open>BATCH_SIZE\<close>; \<open>slice(i, i + 5)\<close> is \<open>take 5 (drop i ...)\<close>.
  \<open>[...new Set(xs)]\<close> lists the distinct elements in first-seen order.
\<close>

fun setAll :: "('k \<times> 'a) list \<Rightarrow> 'k list \<Rightarrow> 'a list \<Rightarrow> ('k \<times> 'a) list" where
  "setAll results (k # ks) (r # rs) = setAll (mapSet results k r) ks rs"
| "setAll results _ _ = results"

definition BATCH_SIZE :: nat where
  "BATCH_SIZE = 5"

function resolveUsersLoop ::
  "('s \<Rightarrow> string \<Rightarrow> (js_error + ResolvedUser list) \<times> 's) \<Rightarrow> string list \<Rightarrow> nat
     \<Rightarrow> (string \<times> ResolutionResult) list \<Rightarrow> 's \<Rightarrow> (string \<times> ResolutionResult) list \<times> 's" where
  "resolveUsersLoop search uniqueNames i results s =
     (if i < length uniqueNames then
        (let batch = take BATCH_SIZE (drop i uniqueNames) in
         case settleAll (resolveUser search) s batch of
           (batchResults, s') \<Rightarrow>
             resolveUsersLoop search uniqueNames (i + BATCH_SIZE)
               (setAll results batch batchResults) s')
      else (results, s))"
  by pat_completeness auto
termination
  by (relation "measure (\<lambda>(search, uniqueNames, i, results, s). length uniqueNames - i)")
     (auto simp: BATCH_SIZE_def)

definition resolveUsers ::
  "('s \<Rightarrow> string \<Rightarrow> (js_error + ResolvedUser list) \<times> 's) \<Rightarrow> string list \<Rightarrow> 's
     \<Rightarrow> (string \<times> ResolutionResult) list \<times> 's" where
  "resolveUsers search names s =
     (let uniqueNames = firstSeen (filter (\<lambda>n. n \<noteq> [] \<and> n \<noteq> ''Unassigned'') names)
      in resolveUsersLoop search uniqueNames 0 [] s)"

section \<open>devopsService: building the backend record\<close>

text \<open>\<open>config.azureDevOps\<close>, as far as the service reads it, and \<open>priorityMap\<close>.\<close>

record AzureDevOpsConfig =
  orgUrl :: string
  project :: string
  defaultWorkItemType :: string
  defaultAreaPath :: string
  defaultIterationPath :: string
  triageUser :: string

definition priorityMap :: "(string \<times> int) list" where
  "priorityMap =
     [(''Critical'', 1), (''High'', 1), (''Medium'', 2), (''Normal'', 2), (''Low'', 3),
      (''Lowest'', 4)]"

text \<open>\<open>interface PatchOperation\<close>; a value is a string or a number.\<close>

datatype patch_value = StringValue string | NumberValue int

record PatchOperation =
  op :: string
  path :: string
  pvalue :: patch_value

text \<open>\<open>s.replace(/c/g, r)\<close> for one character \<open>c\<close>, and \<open>escapeHtml\<close>.\<close>

definition replaceAll :: "char \<Rightarrow> string \<Rightarrow> string \<Rightarrow> string" where
  "replaceAll c r s = concat (map (\<lambda>x. if x = c then r else [x]) s)"

definition escapeHtml :: "string \<Rightarrow> string" where
  "escapeHtml text' =
     replaceAll (CHR 0x27) ''&#039;''
       (replaceAll (CHR 0x22) ''&quot;''
         (replaceAll (CHR ''>'') ''&gt;''
           (replaceAll (CHR ''<'') ''&lt;''
             (replaceAll (CHR ''&'') ''&amp;'' text'))))"

text \<open>
  \<open>formatDescription(task, correlationId)\<close>. The robot emoji of the heading is given by
  its UTF-8 bytes.
\<close>

definition formatDescription :: "string ActionItem \<Rightarrow> string \<Rightarrow> string" where
  "formatDescription task cid =
     ''<div><strong>'' @ [CHR 0xF0, CHR 0x9F, CHR 0xA4, CHR 0x96]
       @ '' Generated by ActionAgent AI</strong></div>''
     @ ''<hr/>''
     @ (case description task of
          None \<Rightarrow> []
        | Some d \<Rightarrow> if d = [] then [] else ''<p>'' @ escapeHtml d @ ''</p>'')
     @ ''<br/><table>''
     @ ''<tr><td><strong>Priority:</strong></td><td>'' @ priority task @ ''</td></tr>''
     @ ''<tr><td><strong>Original Assignee:</strong></td><td>'' @ escapeHtml (assignedTo task)
       @ ''</td></tr>''
     @ (case deadline task of
          None \<Rightarrow> []
        | Some d \<Rightarrow>
            if d = [] then []
            else ''<tr><td><strong>Deadline:</strong></td><td>'' @ escapeHtml d @ ''</td></tr>'')
     @ ''</table>''
     @ ''<br/><p><em>This work item was automatically created from a Teams meeting transcript.</em></p>''
     @ ''<p style='' @ [CHR 0x22] @ ''color: #888; font-size: 10px;'' @ [CHR 0x22]
       @ ''>Correlation ID: '' @ cid @ ''</p>''"

text \<open>
  \<open>buildPatchDocument(task, assigneeIdentity, correlationId)\<close>. \<open>parseDeadline\<close> reads the
  clock and the platform's date parser: it is a parameter, which returns the ISO string of
  the date, or \<^term>\<open>None\<close> for \<open>null\<close>. A string is truthy when it is not empty.
\<close>

definition buildPatchDocument ::
  "AzureDevOpsConfig \<Rightarrow> (string \<Rightarrow> string option) \<Rightarrow> string ActionItem \<Rightarrow> string \<Rightarrow> string
     \<Rightarrow> PatchOperation list" where
  "buildPatchDocument cfg parseDeadline task assigneeIdentity cid =
     [\<lparr>op = ''add'', path = ''/fields/System.Title'', pvalue = StringValue (title task)\<rparr>,
      \<lparr>op = ''add'', path = ''/fields/System.Description'',
       pvalue = StringValue (formatDescription task cid)\<rparr>,
      \<lparr>op = ''add'', path = ''/fields/Microsoft.VSTS.Common.Priority'',
       pvalue = NumberValue
         (case map_of priorityMap (priority task) of
            None \<Rightarrow> 2
          | Some n \<Rightarrow> if n = 0 then 2 else n)\<rparr>,
      \<lparr>op = ''add'', path = ''/fields/System.Tags'',
       pvalue = StringValue ''ActionAgent; AI-Generated''\<rparr>]
     @ (if assigneeIdentity \<noteq> [] \<and> assigneeIdentity \<noteq> ''Unassigned''
        then [\<lparr>op = ''add'', path = ''/fields/System.AssignedTo'',
               pvalue = StringValue assigneeIdentity\<rparr>]
        else if triageUser cfg \<noteq> []
        then [\<lparr>op = ''add'', path = ''/fields/System.AssignedTo'',
               pvalue = StringValue (triageUser cfg)\<rparr>]
        else [])
     @ (if defaultAreaPath cfg \<noteq> []
        then [\<lparr>op = ''add'', path = ''/fields/System.AreaPath'',
               pvalue = StringValue (defaultAreaPath cfg)\<rparr>]
        else [])
     @ (if defaultIterationPath cfg \<noteq> []
        then [\<lparr>op = ''add'', path = ''/fields/System.IterationPath'',
               pvalue = StringValue (defaultIterationPath cfg)\<rparr>]
        else [])
     @ (case deadline task of
          None \<Rightarrow> []
        | Some d \<Rightarrow>
            if d = [] then []
            else (case parseDeadline d of
                    None \<Rightarrow> []
                  | Some isoDate \<Rightarrow>
                      [\<lparr>op = ''add'', path = ''/fields/Microsoft.VSTS.Scheduling.TargetDate'',
                        pvalue = StringValue isoDate\<rparr>]))"

text \<open>The values the record gives to a field.\<close>

definition fieldValues :: "string \<Rightarrow> PatchOperation list \<Rightarrow> patch_value list" where
  "fieldValues p doc = map pvalue (filter (\<lambda>operation. path operation = p) doc)"

section \<open>devopsService: createWorkItems\<close>

text \<open>
  \<open>createWorkItems(tasks, resolveIdentities)\<close>. \<open>createWorkItem\<close> (identity resolution, the
  retry wrapper and the call to the backend) is the parameter \<open>create\<close>: from the state
  \<open>'s\<close> of the backend and a task, the settled promise (the record created, of type \<open>'r\<close>,
  or the rejection) and the new state. The result holds the \<open>results\<close> array that is
  returned, the \<open>errors\<close> array that is logged, the number of pauses between batches, and
  the state of the backend.
\<close>

definition MAX_CONCURRENT :: nat where
  "MAX_CONCURRENT = 5"

fun collectSettled ::
  "'a list \<Rightarrow> (js_error + 'r) list \<Rightarrow> 'r list \<times> ('a \<times> js_error) list
     \<Rightarrow> 'r list \<times> ('a \<times> js_error) list" where
  "collectSettled (t # ts) (Inr v # rs) (results, errors) =
     collectSettled ts rs (results @ [v], errors)"
| "collectSettled (t # ts) (Inl e # rs) (results, errors) =
     collectSettled ts rs (results, errors @ [(t, e)])"
| "collectSettled _ _ acc = acc"

function createWorkItemsLoop ::
  "('s \<Rightarrow> 'a \<Rightarrow> (js_error + 'r) \<times> 's) \<Rightarrow> 'a list \<Rightarrow> nat
     \<Rightarrow> 'r list \<times> ('a \<times> js_error) list \<Rightarrow> nat \<Rightarrow> 's
     \<Rightarrow> 'r list \<times> ('a \<times> js_error) list \<times> nat \<times> 's" where
  "createWorkItemsLoop create tasks i acc pauses s =
     (if i < length tasks then
        (let batch = take MAX_CONCURRENT (drop i tasks) in
         case settleAll create s batch of
           (batchResults, s') \<Rightarrow>
             createWorkItemsLoop create tasks (i + MAX_CONCURRENT)
               (collectSettled batch batchResults acc)
               (if i + MAX_CONCURRENT < length tasks then Suc pauses else pauses) s')
      else (fst acc, snd acc, pauses, s))"
  by pat_completeness auto
termination
  by (relation "measure (\<lambda>(create, tasks, i, acc, pauses, s). length tasks - i)")
     (auto simp: MAX_CONCURRENT_def)

definition createWorkItems ::
  "('s \<Rightarrow> 'a \<Rightarrow> (js_error + 'r) \<times> 's) \<Rightarrow> 'a list \<Rightarrow> 's
     \<Rightarrow> 'r list \<times> ('a \<times> js_error) list \<times> nat \<times> 's" where
  "createWorkItems create tasks s = createWorkItemsLoop create tasks 0 ([], []) 0 s"

text \<open>
  The records of the fulfilled promises, and the \<open>(task, error)\<close> pairs of the rejected
  ones, in the order of the tasks. \<open>recording create\<close> is \<open>create\<close> with a log of the
  tasks it has been called on.
\<close>

definition fulfilled :: "(js_error + 'r) list \<Rightarrow> 'r list" where
  "fulfilled outcomes =
     List.map_filter (\<lambda>r. case r of Inr v \<Rightarrow> Some v | Inl e \<Rightarrow> None) outcomes"

definition rejected :: "'a list \<Rightarrow> (js_error + 'r) list \<Rightarrow> ('a \<times> js_error) list" where
  "rejected tasks outcomes =
     List.map_filter (\<lambda>(t, r). case r of Inl e \<Rightarrow> Some (t, e) | Inr v \<Rightarrow> None)
       (zip tasks outcomes)"

definition recording ::
  "('s \<Rightarrow> 'a \<Rightarrow> (js_error + 'r) \<times> 's) \<Rightarrow> 'a list \<times> 's \<Rightarrow> 'a
     \<Rightarrow> (js_error + 'r) \<times> 'a list \<times> 's" where
  "recording create st t =
     (case create (snd st) t of (r, s') \<Rightarrow> (r, (fst st @ [t], s')))"

section \<open>Example inputs\<close>

definition exItem :: "string \<Rightarrow> string option \<Rightarrow> string ActionItem" where
  "exItem t d = \<lparr>title = t, assignedTo = ''Unassigned'', type = ''Task'', priority = ''Medium'',
     description = d, deadline = None\<rparr>"

definition exampleContext :: CorrelationContext where
  "exampleContext =
     \<lparr>correlationId = ''7d3f0c52-1b7e-4c1a-9a55-2f6f0e8b4d10'',
      operationName = ''AI.ExtractActionItems'', startTime = 0\<rparr>"

definition exampleItems :: "json list" where
  "exampleItems =
     [JObj [(''title'', JStr ''  Fix   login bug ''), (''type'', JStr ''BUG''),
            (''priority'', JStr ''1'')],
      JObj [(''title'', JStr ''   '')],
      JNull,
      JObj [(''title'', JStr ''Update docs''), (''assignedTo'', JStr ''Sam''),
            (''deadline'', JStr ''tomorrow'')]]"

text \<open>The same items in the three accepted response shapes.\<close>

definition bareArrayText :: string where
  \<open>bareArrayText =
     ''[{"title":"  Fix   login bug ","type":"BUG","priority":"1"},{"title":"   "},null,{"title":"Update docs","assignedTo":"Sam","deadline":"tomorrow"}]''\<close>

definition actionItemsText :: string where
  \<open>actionItemsText =
     ''{"actionItems":[{"title":"  Fix   login bug ","type":"BUG","priority":"1"},{"title":"   "},null,{"title":"Update docs","assignedTo":"Sam","deadline":"tomorrow"}],"summary":"Login work"}''\<close>

definition tasksText :: string where
  \<open>tasksText =
     ''{"tasks":[{"title":"  Fix   login bug ","type":"BUG","priority":"1"},{"title":"   "},null,{"title":"Update docs","assignedTo":"Sam","deadline":"tomorrow"}]}''\<close>

text \<open>
  A stand-in for \<open>JSON.parse\<close> in the examples: it agrees with \<open>JSON.parse\<close> on \<open>null\<close>, on
  the three responses above, and on \<open>not json\<close>, where \<open>JSON.parse\<close> throws.
\<close>

definition exampleParse :: "string \<Rightarrow> json option" where
  "exampleParse content =
     (if content = ''null'' then Some JNull
      else if content = bareArrayText then Some (JArr exampleItems)
      else if content = actionItemsText
      then Some (JObj [(''actionItems'', JArr exampleItems), (''summary'', JStr ''Login work'')])
      else if content = tasksText then Some (JObj [(''tasks'', JArr exampleItems)])
      else None)"

definition exampleValidated :: "json ActionItem list" where
  "exampleValidated =
     [\<lparr>title = ''Fix login bug'', assignedTo = JStr ''Unassigned'', type = ''Bug'',
       priority = ''High'', description = Some (JStr []), deadline = None\<rparr>,
      \<lparr>title = ''Update docs'', assignedTo = JStr ''Sam'', type = ''Task'',
       priority = ''Medium'', description = Some (JStr []),
       deadline = Some (JStr ''tomorrow'')\<rparr>]"

text \<open>
  The retry scenario: an operation that fails with a 503 on its first two invocations and
  succeeds on the third, under the default configuration (3 attempts, base delay 1000 ms),
  with \<open>Math.random()\<close> returning one half, which makes the jitter zero.
\<close>

definition exampleFeatures :: Features where
  "exampleFeatures = \<lparr>enableRetries = True, maxRetries = 3, retryDelayMs = 1000\<rparr>"

definition failsTwice :: "nat \<Rightarrow> js_error + string" where
  "failsTwice i = (if i < 3 then Inl (Error ''HTTP status: 503'') else Inr ''extracted'')"

definition alwaysFails :: "nat \<Rightarrow> js_error + string" where
  "alwaysFails i = Inl (Error ''HTTP status: 503'')"

text \<open>
  The partial-failure scenario: a backend that rejects the second creation it is asked
  for. Its state is the number of creations asked for so far; a record created is
  represented by its id.
\<close>

definition failsOnSecond :: "nat \<Rightarrow> string ActionItem \<Rightarrow> (js_error + int) \<times> nat" where
  "failsOnSecond n task =
     (if n = 1 then Inl (Error ''TF401320: Rule Error for field Title'') else Inr (1000 + int n),
      Suc n)"

text \<open>A directory that knows nobody, and a configuration with a triage user.\<close>

definition emptyDirectory :: "unit \<Rightarrow> string \<Rightarrow> (js_error + ResolvedUser list) \<times> unit" where
  "emptyDirectory s name = (Inr [], s)"

definition exampleDevOps :: AzureDevOpsConfig where
  "exampleDevOps =
     \<lparr>orgUrl = ''https://dev.azure.com/contoso'', project = ''Engineering'',
      defaultWorkItemType = ''Task'', defaultAreaPath = [], defaultIterationPath = [],
      triageUser = ''triage@contoso.com''\<rparr>"

text \<open>Two words separated by a tab, and a short transcript of two sentences.\<close>

definition tabSeparated :: string where
  "tabSeparated = ''aaa'' @ [CHR 0x09] @ ''bbb''"

definition shortTranscript :: string where
  "shortTranscript = ''Ship it. Fix the login bug now!''"

text \<open>
  A caption document of two cues, and the caption text of the end-to-end scenario, two
  speaker tags on one line.
\<close>

definition exampleVtt :: string where
  "exampleVtt =
     ''WEBVTT\<newline>\<newline>1\<newline>00:00:01.000 --> 00:00:04.000\<newline><v Sam>I will fix the login bug.</v>\<newline>\<newline>2\<newline>00:00:04.000 --> 00:00:06.000\<newline><v Jess>Sounds good.</v>\<newline>''"

definition scenarioCaption :: string where
  "scenarioCaption =
     ''<v Sam>I will fix the login timeout bug by tomorrow. <v Jess>Sounds good, thanks.''"

section \<open>The response validator on a response that is not in an accepted shape\<close>

text \<open>
  What holds of the two parts of the claim: a response that does not parse raises the
  error with the correlation id of the context, and a parsed value other than \<open>null\<close> in
  none of the three shapes gives the empty result.
\<close>

lemma parseAndValidateResponse_unparseable:
  "JSON_parse content = None \<Longrightarrow>
   parseAndValidateResponse JSON_parse content ctx =
     Inl (ActionAgentError ''Failed to parse AI response as JSON''
           (correlationId ctx) (operationName ctx) False None)"
  by (simp add: parseAndValidateResponse_def newActionAgentError_def)

lemma parseAndValidateResponse_unexpected_shape:
  assumes "JSON_parse content = Some parsed" "parsed \<noteq> JNull" "\<not> isArray (Some parsed)"
    and "\<not> isArray (property parsed ''actionItems'')" "\<not> isArray (property parsed ''tasks'')"
  shows "parseAndValidateResponse JSON_parse content ctx = Inr \<lparr>actionItems = [], summary = None\<rparr>"
  using assms by (simp add: parseAndValidateResponse_def)

text \<open>
  Claim C1. A response that does not parse as JSON raises a structured error carrying the
  correlation id; a response that parses but has none of the three accepted shapes gives
  an empty item list and does not raise. The response \<open>null\<close> parses, has none of the
  three shapes, and raises: reading \<open>parsed.actionItems\<close> throws inside the \<open>try\<close> block.
\<close>

theorem parseAndValidateResponse_null_raises:
  "exampleParse ''null'' = Some JNull
   \<and> parseAndValidateResponse exampleParse ''null'' exampleContext =
       Inl (ActionAgentError ''Failed to parse AI response as JSON''
             ''7d3f0c52-1b7e-4c1a-9a55-2f6f0e8b4d10'' ''AI.ExtractActionItems'' False None)"
  by (simp add: parseAndValidateResponse_def exampleParse_def exampleContext_def
        newActionAgentError_def)

section \<open>The chunker\<close>

subsection \<open>Splitting\<close>

lemma splitBy_not_Nil: "splitBy P s \<noteq> []"
  by (induction s) (auto split: list.splits)


subsection \<open>The loops keep the chunks within the threshold\<close>

lemma length_trimEnd_le: "length (trimEnd s) \<le> length s"
  using length_dropWhile_le[of isSpace "rev s"] by (simp add: trimEnd_def)

lemma trimEnd_snoc_space: "isSpace c \<Longrightarrow> trimEnd (t @ [c]) = trimEnd t"
  by (simp add: trimEnd_def)

lemma length_trim_snoc_space:
  assumes "isSpace c"
  shows "length (trim (t @ [c])) \<le> length t"
proof (cases "\<forall>x\<in>set t. isSpace x")
  case True
  then have "dropWhile isSpace (t @ [c]) = []" using assms by simp
  then show ?thesis by (simp add: trim_def trimStart_def trimEnd_def)
next
  case False
  then have "dropWhile isSpace (t @ [c]) = dropWhile isSpace t @ [c]"
    by (simp add: dropWhile_append)
  then have "trim (t @ [c]) = trimEnd (dropWhile isSpace t)"
    using assms by (simp add: trim_def trimStart_def trimEnd_snoc_space)
  then show ?thesis
    using length_trimEnd_le[of "dropWhile isSpace t"] length_dropWhile_le[of isSpace t]
    by simp
qed

lemma fitsChunk_trim: "fitsChunk n cur \<Longrightarrow> length (trim cur) \<le> n"
proof (cases "cur = []")
  case True
  then show ?thesis by (simp add: trim_def trimStart_def trimEnd_def)
next
  case False
  assume f: "fitsChunk n cur"
  from False obtain t c where cur: "cur = t @ [c]" by (metis rev_exhaust)
  with f have "c = CHR '' ''" "length t \<le> n" by (auto simp: fitsChunk_def)
  then show ?thesis
    using length_trim_snoc_space[of c t] by (simp add: cur isSpace_def)
qed

lemma fitsChunk_Nil: "fitsChunk n []"
  by (simp add: fitsChunk_def)

lemma fitsChunk_snoc: "length s \<le> n \<Longrightarrow> fitsChunk n (s @ '' '')"
  by (simp add: fitsChunk_def)

lemma packWords_fits:
  assumes "\<forall>w\<in>set ws. length w \<le> n" "\<forall>c\<in>set chunks. length c \<le> n" "fitsChunk n wc"
    and "packWords n ws (chunks, wc) = (chunks', wc')"
  shows "(\<forall>c\<in>set chunks'. length c \<le> n) \<and> fitsChunk n wc'"
  using assms
proof (induction ws arbitrary: chunks wc)
  case Nil then show ?case by simp
next
  case (Cons w ws)
  have w: "length w \<le> n" and ws: "\<forall>w\<in>set ws. length w \<le> n" using Cons.prems(1) by auto
  show ?case
  proof (cases "length wc + length w > n")
    case True
    with Cons.prems have p: "packWords n ws (chunks @ [trim wc], w @ '' '') = (chunks', wc')"
      by simp
    have c: "\<forall>c\<in>set (chunks @ [trim wc]). length c \<le> n"
      using Cons.prems(2) fitsChunk_trim[OF Cons.prems(3)] by auto
    from Cons.IH[OF ws c fitsChunk_snoc[OF w] p] show ?thesis .
  next
    case False
    with Cons.prems have p: "packWords n ws (chunks, wc @ w @ '' '') = (chunks', wc')" by simp
    have "length (wc @ w) \<le> n" using False by simp
    from fitsChunk_snoc[OF this] have "fitsChunk n (wc @ w @ '' '')" by simp
    from Cons.IH[OF ws Cons.prems(2) this p] show ?thesis .
  qed
qed

lemma packSentences_fits:
  assumes "\<forall>s\<in>set ss. \<forall>w\<in>set (splitOn (CHR '' '') s). length w \<le> n"
    and "\<forall>c\<in>set chunks. length c \<le> n" "fitsChunk n cur"
    and "packSentences n ss (chunks, cur) = (chunks', cur')"
  shows "(\<forall>c\<in>set chunks'. length c \<le> n) \<and> fitsChunk n cur'"
  using assms
proof (induction ss arbitrary: chunks cur)
  case Nil then show ?case by simp
next
  case (Cons s ss)
  have s: "\<forall>w\<in>set (splitOn (CHR '' '') s). length w \<le> n"
    and ss: "\<forall>s\<in>set ss. \<forall>w\<in>set (splitOn (CHR '' '') s). length w \<le> n"
    using Cons.prems(1) by auto
  show ?case
  proof (cases "length cur + length s > n")
    case False
    with Cons.prems have p: "packSentences n ss (chunks, cur @ s @ '' '') = (chunks', cur')"
      by simp
    have "length (cur @ s) \<le> n" using False by simp
    from fitsChunk_snoc[OF this] have "fitsChunk n (cur @ s @ '' '')" by simp
    from Cons.IH[OF ss Cons.prems(2) this p] show ?thesis .
  next
    case over: True
    define chunks1 where "chunks1 = (if length cur > 0 then chunks @ [trim cur] else chunks)"
    have c1: "\<forall>c\<in>set chunks1. length c \<le> n"
      using Cons.prems(2) fitsChunk_trim[OF Cons.prems(3)] by (auto simp: chunks1_def)
    have cur1: "(if length cur > 0 then (chunks @ [trim cur], []) else (chunks, cur)) = (chunks1, [])"
      by (simp add: chunks1_def)
    show ?thesis
    proof (cases "length s > n")
      case False
      with over Cons.prems cur1
      have p: "packSentences n ss (chunks1, s @ '' '') = (chunks', cur')" by simp
      have "length s \<le> n" using False by simp
      from Cons.IH[OF ss c1 fitsChunk_snoc[OF this] p] show ?thesis .
    next
      case True
      obtain chunks2 wc where pw: "packWords n (splitOn (CHR '' '') s) (chunks1, []) = (chunks2, wc)"
        by (cases "packWords n (splitOn (CHR '' '') s) (chunks1, [])")
      let ?cur2 = "if trim wc \<noteq> [] then wc else []"
      from over True Cons.prems cur1 pw
      have p: "packSentences n ss (chunks2, ?cur2) = (chunks', cur')" by simp
      from packWords_fits[OF s c1 fitsChunk_Nil pw]
      have c2: "\<forall>c\<in>set chunks2. length c \<le> n" and f2: "fitsChunk n ?cur2"
        by (simp_all add: fitsChunk_Nil)
      from Cons.IH[OF ss c2 f2 p] show ?thesis .
    qed
  qed
qed

subsection \<open>Words of sentences lie inside the space-free tokens of the text\<close>

lemma prefix_hd_splitBy:
  "\<forall>c\<in>set w. \<not> P c \<Longrightarrow> prefix w s \<Longrightarrow> prefix w (hd (splitBy P s))"
proof (induction s arbitrary: w)
  case Nil then show ?case by simp
next
  case (Cons c cs)
  show ?case
  proof (cases w)
    case Nil then show ?thesis by simp
  next
    case (Cons a w')
    with Cons.prems have a: "a = c" "\<not> P c" "prefix w' cs" "\<forall>c\<in>set w'. \<not> P c" by auto
    from Cons.IH[OF a(4,3)] have "prefix w' (hd (splitBy P cs))" .
    with a Cons show ?thesis
      using splitBy_not_Nil[of P cs] by (auto split: list.splits)
  qed
qed

lemma sublist_in_splitBy:
  "\<forall>c\<in>set w. \<not> P c \<Longrightarrow> sublist w s \<Longrightarrow> \<exists>x\<in>set (splitBy P s). sublist w x"
proof (induction s)
  case Nil then show ?case by simp
next
  case (Cons c cs)
  from Cons.prems(2) consider "prefix w (c # cs)" | "sublist w cs"
    by (auto simp: sublist_Cons_right)
  then show ?case
  proof cases
    case 1
    from prefix_hd_splitBy[OF Cons.prems(1) 1]
    have "sublist w (hd (splitBy P (c # cs)))" by (rule prefix_imp_sublist)
    moreover have "hd (splitBy P (c # cs)) \<in> set (splitBy P (c # cs))"
      using splitBy_not_Nil[of P "c # cs"] by (intro hd_in_set)
    ultimately show ?thesis by blast
  next
    case 2
    from Cons.IH[OF Cons.prems(1) 2] obtain x where x: "x \<in> set (splitBy P cs)" "sublist w x"
      by blast
    obtain y ys where r: "splitBy P cs = y # ys"
      using splitBy_not_Nil[of P cs] by (cases "splitBy P cs") auto
    show ?thesis
    proof (cases "P c")
      case True
      with x show ?thesis by auto
    next
      case False
      show ?thesis
      proof (cases "x = y")
        case True
        with x have "sublist w (c # y)" by (simp add: sublist_Cons_right)
        with False r show ?thesis by auto
      next
        case neq: False
        with x r have "x \<in> set ys" by auto
        with False r x show ?thesis by auto
      qed
    qed
  qed
qed

lemma splitBy_pieces: "x \<in> set (splitBy P s) \<Longrightarrow> (\<forall>c\<in>set x. \<not> P c) \<and> sublist x s"
proof (induction s arbitrary: x)
  case Nil then show ?case by simp
next
  case (Cons c cs)
  obtain y ys where r: "splitBy P cs = y # ys"
    using splitBy_not_Nil[of P cs] by (cases "splitBy P cs") auto
  have y: "(\<forall>c\<in>set y. \<not> P c) \<and> prefix y cs"
  proof -
    have "(\<forall>c\<in>set (hd (splitBy P t)). \<not> P c) \<and> prefix (hd (splitBy P t)) t" for t
      by (induction t) (auto simp: splitBy_not_Nil split: list.splits)
    from this[of cs] r show ?thesis by simp
  qed
  show ?case
  proof (cases "P c")
    case True
    with Cons.prems have "x = [] \<or> x \<in> set (splitBy P cs)" by auto
    then show ?thesis using Cons.IH by (auto simp: sublist_Cons_right)
  next
    case False
    with Cons.prems r have "x = c # y \<or> x \<in> set ys" by auto
    then show ?thesis
    proof
      assume "x = c # y"
      with y False show ?thesis by (auto intro: prefix_imp_sublist)
    next
      assume "x \<in> set ys"
      with r have "x \<in> set (splitBy P cs)" by simp
      from Cons.IH[OF this] show ?thesis by (auto simp: sublist_Cons_right)
    qed
  qed
qed

lemma splitSentences_sublist:
  "x \<in> set (splitSentences piece rest) \<Longrightarrow> sublist x (piece @ rest)"
proof (induction piece rest rule: splitSentences.induct)
  case (1 piece) then show ?case by simp
next
  case (2 piece c cs)
  show ?case
  proof (cases "isSpace c \<and> piece \<noteq> [] \<and> isSentenceEnd (last piece)")
    case True
    with "2.prems" have "x = piece \<or> x \<in> set (splitSentences [] (dropWhile isSpace cs))"
      by auto
    then show ?thesis
    proof
      assume "x = piece" then show ?thesis by simp
    next
      assume "x \<in> set (splitSentences [] (dropWhile isSpace cs))"
      from "2.IH"(1)[OF True this] have "sublist x (dropWhile isSpace cs)" by simp
      moreover have "suffix (dropWhile isSpace cs) (piece @ c # cs)"
        by (meson suffix_dropWhile suffix_ConsI suffix_appendI)
      ultimately show ?thesis
        by (meson sublist_order.order.trans suffix_imp_sublist)
    qed
  next
    case False
    with "2.prems" have "x \<in> set (splitSentences (piece @ [c]) cs)" by auto
    from "2.IH"(2)[OF False this] show ?thesis by simp
  qed
qed

lemma words_within_tokens:
  assumes "\<forall>w\<in>set (splitOn (CHR '' '') t). length w \<le> n"
    and "s \<in> set (splitSentences [] t)" "w \<in> set (splitOn (CHR '' '') s)"
  shows "length w \<le> n"
proof -
  from splitBy_pieces[of w "\<lambda>c. c = CHR '' ''" s] assms(3)
  have w: "\<forall>c\<in>set w. c \<noteq> CHR '' ''" "sublist w s" by (auto simp: splitOn_def)
  from splitSentences_sublist[OF assms(2)] have "sublist s t" by simp
  with w(2) have "sublist w t" by (meson sublist_order.order.trans)
  from sublist_in_splitBy[of w "\<lambda>c. c = CHR '' ''" t, OF w(1) this]
  obtain x where "x \<in> set (splitOn (CHR '' '') t)" "sublist w x" by (auto simp: splitOn_def)
  with assms(1) sublist_length_le[of w x] show ?thesis by fastforce
qed

lemma splitIntoChunks_fits:
  assumes "\<forall>w\<in>set (splitOn (CHR '' '') t). length w \<le> n"
    and "chunk \<in> set (splitIntoChunks t n)"
  shows "length chunk \<le> n"
proof -
  obtain chunks cur where p: "packSentences n (splitSentences [] t) ([], []) = (chunks, cur)"
    by (cases "packSentences n (splitSentences [] t) ([], [])")
  have "\<forall>s\<in>set (splitSentences [] t). \<forall>w\<in>set (splitOn (CHR '' '') s). length w \<le> n"
    using words_within_tokens[OF assms(1)] by blast
  from packSentences_fits[OF this _ fitsChunk_Nil p]
  have "\<forall>c\<in>set chunks. length c \<le> n" "fitsChunk n cur" by simp_all
  with fitsChunk_trim[of n cur] assms(2) show ?thesis
    by (auto simp: splitIntoChunks_def p split: if_splits)
qed

subsection \<open>The loops keep the words\<close>

lemma splitBy_append_sep: "P c \<Longrightarrow> splitBy P (a @ c # b) = splitBy P a @ splitBy P b"
proof (induction a)
  case Nil then show ?case by simp
next
  case (Cons x a)
  obtain w ws where r: "splitBy P a = w # ws"
    using splitBy_not_Nil[of P a] by (cases "splitBy P a") auto
  from Cons r show ?case by simp
qed

lemma wordsOf_Nil: "wordsOf [] = []"
  by (simp add: wordsOf_def)

lemma wordsOf_sep: "isSpace c \<Longrightarrow> wordsOf (a @ c # b) = wordsOf a @ wordsOf b"
  by (simp add: wordsOf_def splitBy_append_sep)

lemma wordsOf_Cons_space: "isSpace c \<Longrightarrow> wordsOf (c # b) = wordsOf b"
  using wordsOf_sep[of c "[]" b] by (simp add: wordsOf_Nil)

lemma wordsOf_snoc_space: "isSpace c \<Longrightarrow> wordsOf (a @ [c]) = wordsOf a"
  using wordsOf_sep[of c a "[]"] by (simp add: wordsOf_Nil)

lemma wordsOf_dropWhile: "wordsOf (dropWhile isSpace s) = wordsOf s"
  by (induction s) (simp_all add: wordsOf_Cons_space)

lemma wordsOf_trimEnd: "wordsOf (trimEnd s) = wordsOf s"
proof (induction s rule: rev_induct)
  case Nil show ?case by (simp add: trimEnd_def)
next
  case (snoc c s)
  show ?case
  proof (cases "isSpace c")
    case True
    with snoc show ?thesis by (simp add: trimEnd_snoc_space wordsOf_snoc_space)
  next
    case False
    then show ?thesis by (simp add: trimEnd_def)
  qed
qed

lemma wordsOf_trim: "wordsOf (trim s) = wordsOf s"
  by (simp add: trim_def trimStart_def wordsOf_trimEnd wordsOf_dropWhile)

lemma wordsOf_append_spaced:
  "a = [] \<or> last a = CHR '' '' \<Longrightarrow> wordsOf (a @ b) = wordsOf a @ wordsOf b"
proof (cases "a = []")
  case True then show ?thesis by (simp add: wordsOf_Nil)
next
  case False
  assume "a = [] \<or> last a = CHR '' ''"
  with False obtain a' where a: "a = a' @ '' ''" by (metis append_butlast_last_id)
  have sp: "isSpace (CHR '' '')" by (simp add: isSpace_def)
  show ?thesis
    using wordsOf_sep[OF sp, of a' b] wordsOf_snoc_space[OF sp, of a'] by (simp add: a)
qed

lemma wordsOf_splitSentences:
  "concat (map wordsOf (splitSentences piece rest)) = wordsOf (piece @ rest)"
proof (induction piece rest rule: splitSentences.induct)
  case (1 piece)
  show ?case by simp
next
  case (2 piece c cs)
  show ?case
  proof (cases "isSpace c \<and> piece \<noteq> [] \<and> isSentenceEnd (last piece)")
    case True
    with 2 show ?thesis by (simp add: wordsOf_sep wordsOf_dropWhile)
  next
    case False
    with 2 show ?thesis by auto
  qed
qed

lemma splitBy_no_sep: "\<forall>c\<in>set s. \<not> P c \<Longrightarrow> splitBy P s = [s]"
  by (induction s) auto

lemma wordsOf_splitBy:
  assumes "\<And>c. P c \<Longrightarrow> isSpace c"
  shows "concat (map wordsOf (splitBy P s)) = wordsOf s"
proof (induction s rule: length_induct)
  case (1 s)
  define a where "a = takeWhile (\<lambda>c. \<not> P c) s"
  define r where "r = dropWhile (\<lambda>c. \<not> P c) s"
  have s: "s = a @ r" by (simp add: a_def r_def)
  have na: "\<forall>c\<in>set a. \<not> P c" unfolding a_def by (auto dest: set_takeWhileD)
  show ?case
  proof (cases r)
    case Nil
    with s na show ?thesis by (simp add: splitBy_no_sep)
  next
    case (Cons c b)
    have "r \<noteq> []" using Cons by simp
    then have "\<not> \<not> P (hd r)" unfolding r_def by (rule hd_dropWhile)
    with Cons have c: "P c" by simp
    have "length b < length s" using s Cons by simp
    with 1 have IH: "concat (map wordsOf (splitBy P b)) = wordsOf b" by blast
    have "splitBy P s = [a] @ splitBy P b"
      using splitBy_append_sep[of P c a b] c splitBy_no_sep[OF na] s Cons by simp
    then show ?thesis
      using IH wordsOf_sep[OF assms[OF c], of a b] s Cons by simp
  qed
qed

lemma wordsOf_join: "wordsOf (join '' '' chunks) = concat (map wordsOf chunks)"
proof (induction chunks rule: induct_list012)
  case 1 show ?case by (simp add: wordsOf_Nil)
next
  case (2 x) show ?case by simp
next
  case (3 x y ys)
  have sp: "isSpace (CHR '' '')" by (simp add: isSpace_def)
  from 3 wordsOf_sep[OF sp, of x "join '' '' (y # ys)"] show ?case by simp
qed

lemma packWords_words:
  assumes "wc = [] \<or> last wc = CHR '' ''"
    and "packWords n ws (chunks, wc) = (chunks', wc')"
  shows "concat (map wordsOf chunks') @ wordsOf wc'
           = concat (map wordsOf chunks) @ wordsOf wc @ concat (map wordsOf ws)
         \<and> (wc' = [] \<or> last wc' = CHR '' '')"
  using assms
proof (induction ws arbitrary: chunks wc)
  case Nil then show ?case by simp
next
  case (Cons w ws)
  have sp: "isSpace (CHR '' '')" by (simp add: isSpace_def)
  show ?case
  proof (cases "length wc + length w > n")
    case True
    with Cons.prems have p: "packWords n ws (chunks @ [trim wc], w @ '' '') = (chunks', wc')"
      by simp
    have "w @ '' '' = [] \<or> last (w @ '' '') = CHR '' ''" by simp
    from Cons.IH[OF this p] show ?thesis
      by (simp add: wordsOf_trim wordsOf_snoc_space[OF sp])
  next
    case False
    with Cons.prems have p: "packWords n ws (chunks, wc @ w @ '' '') = (chunks', wc')" by simp
    have "wc @ w @ '' '' = [] \<or> last (wc @ w @ '' '') = CHR '' ''" by simp
    from Cons.IH[OF this p] wordsOf_append_spaced[OF Cons.prems(1), of "w @ '' ''"]
    show ?thesis by (simp add: wordsOf_snoc_space[OF sp])
  qed
qed

lemma packSentences_words:
  assumes "cur = [] \<or> last cur = CHR '' ''"
    and "packSentences n ss (chunks, cur) = (chunks', cur')"
  shows "concat (map wordsOf chunks') @ wordsOf cur'
           = concat (map wordsOf chunks) @ wordsOf cur @ concat (map wordsOf ss)"
  using assms
proof (induction ss arbitrary: chunks cur)
  case Nil then show ?case by simp
next
  case (Cons s ss)
  have sp: "isSpace (CHR '' '')" by (simp add: isSpace_def)
  show ?case
  proof (cases "length cur + length s > n")
    case False
    with Cons.prems have p: "packSentences n ss (chunks, cur @ s @ '' '') = (chunks', cur')"
      by simp
    have "cur @ s @ '' '' = [] \<or> last (cur @ s @ '' '') = CHR '' ''" by simp
    from Cons.IH[OF this p] wordsOf_append_spaced[OF Cons.prems(1), of "s @ '' ''"]
    show ?thesis by (simp add: wordsOf_snoc_space[OF sp])
  next
    case over: True
    define chunks1 where "chunks1 = (if length cur > 0 then chunks @ [trim cur] else chunks)"
    have c1: "concat (map wordsOf chunks1) = concat (map wordsOf chunks) @ wordsOf cur"
      by (simp add: chunks1_def wordsOf_trim wordsOf_Nil)
    have cur1: "(if length cur > 0 then (chunks @ [trim cur], []) else (chunks, cur)) = (chunks1, [])"
      by (simp add: chunks1_def)
    show ?thesis
    proof (cases "length s > n")
      case False
      with over Cons.prems cur1
      have p: "packSentences n ss (chunks1, s @ '' '') = (chunks', cur')" by simp
      have "s @ '' '' = [] \<or> last (s @ '' '') = CHR '' ''" by simp
      from Cons.IH[OF this p] c1 show ?thesis
        by (simp add: wordsOf_snoc_space[OF sp])
    next
      case True
      obtain chunks2 wc where pw: "packWords n (splitOn (CHR '' '') s) (chunks1, []) = (chunks2, wc)"
        by (cases "packWords n (splitOn (CHR '' '') s) (chunks1, [])")
      let ?cur2 = "if trim wc \<noteq> [] then wc else []"
      from over True Cons.prems cur1 pw
      have p: "packSentences n ss (chunks2, ?cur2) = (chunks', cur')" by simp
      from packWords_words[OF _ pw]
      have w: "concat (map wordsOf chunks2) @ wordsOf wc
          = concat (map wordsOf chunks1) @ concat (map wordsOf (splitOn (CHR '' '') s))"
        and e: "wc = [] \<or> last wc = CHR '' ''"
        by (simp_all add: wordsOf_Nil)
      have s: "concat (map wordsOf (splitOn (CHR '' '') s)) = wordsOf s"
        unfolding splitOn_def by (rule wordsOf_splitBy) (simp add: isSpace_def)
      have "wordsOf ?cur2 = wordsOf wc"
        using wordsOf_trim[of wc] by (auto simp: wordsOf_Nil)
      moreover have "?cur2 = [] \<or> last ?cur2 = CHR '' ''" using e by auto
      ultimately show ?thesis using Cons.IH[OF _ p] w s c1 by simp
    qed
  qed
qed

lemma splitIntoChunks_words:
  "wordsOf (join '' '' (splitIntoChunks t n)) = wordsOf t"
proof -
  obtain chunks cur where p: "packSentences n (splitSentences [] t) ([], []) = (chunks, cur)"
    by (cases "packSentences n (splitSentences [] t) ([], [])")
  from packSentences_words[OF _ p]
  have "concat (map wordsOf chunks) @ wordsOf cur = wordsOf t"
    by (simp add: wordsOf_splitSentences wordsOf_Nil)
  moreover have "wordsOf cur = []" if "trim cur = []"
    using wordsOf_trim[of cur] that by (simp add: wordsOf_Nil)
  ultimately show ?thesis
    by (auto simp: splitIntoChunks_def p wordsOf_join wordsOf_trim)
qed

text \<open>
  Claim C2, as the code has it. For every text and threshold, the chunks joined in order
  by a space have the words of the text, in the order of the text: concatenating the
  chunks reproduces the text, up to the whitespace inserted or removed between words and
  at the ends of chunks. And no chunk is longer than the threshold unless a space-free
  token of the text (a maximal run of characters other than the space character) is
  longer than the threshold.
\<close>

theorem splitIntoChunks_spec:
  "wordsOf (join '' '' (splitIntoChunks t n)) = wordsOf t
   \<and> ((\<forall>w\<in>set (splitOn (CHR '' '') t). length w \<le> n)
      \<longrightarrow> (\<forall>chunk\<in>set (splitIntoChunks t n). length chunk \<le> n))"
  using splitIntoChunks_words splitIntoChunks_fits by blast

theorem splitIntoChunks_spec_witness:
  "splitIntoChunks shortTranscript 12 = [''Ship it.'', ''Fix the'', ''login bug'', ''now!'']
   \<and> list_all (\<lambda>chunk. length chunk \<le> 12) (splitIntoChunks shortTranscript 12)
   \<and> wordsOf shortTranscript = [''Ship'', ''it.'', ''Fix'', ''the'', ''login'', ''bug'', ''now!'']
   \<and> wordsOf (join '' '' (splitIntoChunks shortTranscript 12)) = wordsOf shortTranscript"
proof -
  have ev: "splitIntoChunks shortTranscript 12 = [''Ship it.'', ''Fix the'', ''login bug'', ''now!'']"
    by code_simp
  have tok: "splitOn (CHR '' '') shortTranscript
      = [''Ship'', ''it.'', ''Fix'', ''the'', ''login'', ''bug'', ''now!'']"
    by code_simp
  have ws: "wordsOf shortTranscript = [''Ship'', ''it.'', ''Fix'', ''the'', ''login'', ''bug'', ''now!'']"
    by code_simp
  have "\<forall>w\<in>set (splitOn (CHR '' '') shortTranscript). length w \<le> 12"
    unfolding tok by simp
  with splitIntoChunks_spec[of shortTranscript 12] ev ws show ?thesis
    by (simp add: list_all_iff)
qed

text \<open>
  Claim C2 as stated, with a word being a whitespace-free token, fails: words are split at
  the space character only, so two words of three characters separated by a tab make a
  chunk of seven characters under the threshold 5.
\<close>

theorem splitIntoChunks_tab_counterexample:
  "splitIntoChunks tabSeparated 5 = [[], tabSeparated]
   \<and> length tabSeparated = 7
   \<and> splitBy isSpace tabSeparated = [''aaa'', ''bbb'']"
  by code_simp

section \<open>The retry wrapper\<close>

declare retryLoop.simps [simp del]

lemma retryLoop_at:
  assumes "Suc c \<le> maxAttempts cfg"
  shows "retryLoop cfg operation random (Suc c) le c slept =
     (case operation (Suc c) of
        Inr result \<Rightarrow> (Inr result, Suc c, slept)
      | Inl err \<Rightarrow>
          if Suc c < maxAttempts cfg \<and> isRetryableError err
          then retryLoop cfg operation random (Suc (Suc c)) (Some (asError err)) (Suc c)
                 (slept @ [calculateBackoffDelay (Suc c) cfg (random (Suc c))])
          else (Inl (Some (asError err)), Suc c, slept))"
  using assms by (subst retryLoop.simps) (simp add: Let_def split: sum.splits)

lemma retryLoop_skip:
  assumes "c \<le> d" "Suc d \<le> maxAttempts cfg"
    and "\<forall>i. Suc c \<le> i \<and> i \<le> d \<longrightarrow> (\<exists>e. operation i = Inl e \<and> isRetryableError e)"
  shows "\<exists>le. retryLoop cfg operation random (Suc c) lastError c slept =
      retryLoop cfg operation random (Suc d) le d
        (slept @ map (\<lambda>n. calculateBackoffDelay n cfg (random n)) [Suc c..<Suc d])"
  using assms
proof (induction d rule: dec_induct)
  case base
  show ?case by (rule exI[of _ lastError]) simp
next
  case (step n)
  from step.prems step.hyps have nmax: "Suc n < maxAttempts cfg" by simp
  from step.prems step.hyps obtain e where e: "operation (Suc n) = Inl e" "isRetryableError e"
    by auto
  from step.IH step.prems obtain le where le:
    "retryLoop cfg operation random (Suc c) lastError c slept =
      retryLoop cfg operation random (Suc n) le n
        (slept @ map (\<lambda>n. calculateBackoffDelay n cfg (random n)) [Suc c..<Suc n])"
    by auto
  have "retryLoop cfg operation random (Suc n) le n
        (slept @ map (\<lambda>n. calculateBackoffDelay n cfg (random n)) [Suc c..<Suc n])
      = retryLoop cfg operation random (Suc (Suc n)) (Some (asError e)) (Suc n)
        (slept @ map (\<lambda>n. calculateBackoffDelay n cfg (random n)) [Suc c..<Suc (Suc n)])"
    using nmax e step.hyps by (subst retryLoop_at) simp_all
  with le show ?case by auto
qed

lemma retryLoop_reaches:
  assumes "1 \<le> k" "k \<le> maxAttempts cfg"
    and "\<forall>i. 1 \<le> i \<and> i < k \<longrightarrow> (\<exists>e. operation i = Inl e \<and> isRetryableError e)"
  shows "retryLoop cfg operation random 1 None 0 [] =
     (case operation k of
        Inr result \<Rightarrow>
          (Inr result, k, map (\<lambda>n. calculateBackoffDelay n cfg (random n)) [1..<k])
      | Inl err \<Rightarrow>
          if k < maxAttempts cfg \<and> isRetryableError err
          then retryLoop cfg operation random (Suc k) (Some (asError err)) k
                 (map (\<lambda>n. calculateBackoffDelay n cfg (random n)) [1..<Suc k])
          else (Inl (Some (asError err)), k,
                map (\<lambda>n. calculateBackoffDelay n cfg (random n)) [1..<k]))"
proof -
  from assms(1) obtain d where d: "k = Suc d" by (cases k) auto
  have "\<forall>i. Suc 0 \<le> i \<and> i \<le> d \<longrightarrow> (\<exists>e. operation i = Inl e \<and> isRetryableError e)"
    using assms(3) d by auto
  from retryLoop_skip[of 0 d cfg operation random None "[]", OF _ _ this] assms(2) d
  obtain le where
    "retryLoop cfg operation random (Suc 0) None 0 [] =
      retryLoop cfg operation random (Suc d) le d
        (map (\<lambda>n. calculateBackoffDelay n cfg (random n)) [Suc 0..<Suc d])"
    by auto
  then show ?thesis using assms(2) d
    by (simp add: retryLoop_at split: sum.splits)
qed

lemma retryLoop_no_attempts:
  "maxAttempts cfg = 0 \<Longrightarrow> retryLoop cfg operation random 1 None 0 [] = (Inl None, 0, [])"
  by (subst retryLoop.simps) simp

lemma cappedDelay_mono:
  "0 \<le> baseDelayMs cfg \<Longrightarrow> cappedDelay n cfg \<le> cappedDelay (Suc n) cfg"
proof -
  assume b: "0 \<le> baseDelayMs cfg"
  have "(2::rat) ^ (n - 1) \<le> 2 ^ (Suc n - 1)"
    by (rule power_increasing) simp_all
  then have "baseDelayMs cfg * 2 ^ (n - 1) \<le> baseDelayMs cfg * 2 ^ (Suc n - 1)"
    using b by (rule mult_left_mono)
  then show ?thesis by (simp add: cappedDelay_def Let_def min_def)
qed

text \<open>
  Claim C3. With retries enabled: when the operation fails with a retryable error on
  attempts 1 to k - 1 and succeeds on attempt k, with k at most the maximum attempt count,
  the wrapper returns that success after exactly k invocations, and the delay slept after
  attempt n is the base delay times 2 to the n - 1, capped at the maximum delay, plus the
  jitter, so the capped delays do not decrease (for a base delay that is not negative).
  When attempt k fails and either is the last allowed attempt or its error is not
  retryable, when no attempt is allowed, and whenever all allowed attempts fail, the
  wrapper raises an error that carries the correlation id of the context.
\<close>

theorem withRetry_spec:
  assumes "enableRetries features"
    and "cfg = mergeRetryConfig (defaultRetryConfig features) retryConfig"
  shows
    "(1 \<le> k \<and> k \<le> maxAttempts cfg
        \<and> (\<forall>i. 1 \<le> i \<and> i < k \<longrightarrow> (\<exists>e. operation i = Inl e \<and> isRetryableError e))
      \<longrightarrow> (operation k = Inr v
            \<longrightarrow> withRetry features random operation ctx retryConfig
                = (Inr v, k, map (\<lambda>n. calculateBackoffDelay n cfg (random n)) [1..<k]))
          \<and> (operation k = Inl e \<and> (k = maxAttempts cfg \<or> \<not> isRetryableError e)
            \<longrightarrow> withRetry features random operation ctx retryConfig
                = (Inl (ActionAgentError
                         (if errorMessage e = [] then ''Operation failed after retries''
                          else errorMessage e)
                         (correlationId ctx) (operationName ctx) False None),
                   k, map (\<lambda>n. calculateBackoffDelay n cfg (random n)) [1..<k])))
     \<and> (maxAttempts cfg = 0
      \<longrightarrow> withRetry features random operation ctx retryConfig
          = (Inl (ActionAgentError ''Operation failed after retries''
                   (correlationId ctx) (operationName ctx) False None), 0, []))
     \<and> ((\<forall>i. 1 \<le> i \<and> i \<le> maxAttempts cfg \<longrightarrow> (\<exists>x. operation i = Inl x))
      \<longrightarrow> (\<exists>m. fst (withRetry features random operation ctx retryConfig)
                = Inl (ActionAgentError m (correlationId ctx) (operationName ctx) False None)))
     \<and> calculateBackoffDelay n cfg r
         = \<lfloor>cappedDelay n cfg + cappedDelay n cfg * jitterFactor cfg * (r - 1 / 2)\<rfloor>
     \<and> cappedDelay n cfg = min (baseDelayMs cfg * 2 ^ (n - 1)) (maxDelayMs cfg)
     \<and> (0 \<le> baseDelayMs cfg \<longrightarrow> cappedDelay n cfg \<le> cappedDelay (Suc n) cfg)"
proof -
  have msg: "errorMessage (asError e) = errorMessage e" for e
    by (cases e) simp_all
  have ok: "withRetry features random operation ctx retryConfig
      = (Inr v, k, map (\<lambda>n. calculateBackoffDelay n cfg (random n)) [1..<k])"
    if "1 \<le> k" "k \<le> maxAttempts cfg"
      "\<forall>i. 1 \<le> i \<and> i < k \<longrightarrow> (\<exists>e. operation i = Inl e \<and> isRetryableError e)"
      "operation k = Inr v"
    using assms that(4) retryLoop_reaches[OF that(1,2,3), of random]
    by (simp add: withRetry_def Let_def)
  have bad: "withRetry features random operation ctx retryConfig
      = (Inl (ActionAgentError
               (if errorMessage e = [] then ''Operation failed after retries''
                else errorMessage e)
               (correlationId ctx) (operationName ctx) False None),
         k, map (\<lambda>n. calculateBackoffDelay n cfg (random n)) [1..<k])"
    if "1 \<le> k" "k \<le> maxAttempts cfg"
      "\<forall>i. 1 \<le> i \<and> i < k \<longrightarrow> (\<exists>e. operation i = Inl e \<and> isRetryableError e)"
      "operation k = Inl e" "k = maxAttempts cfg \<or> \<not> isRetryableError e"
  proof -
    have "retryLoop cfg operation random 1 None 0 [] =
        (Inl (Some (asError e)), k, map (\<lambda>n. calculateBackoffDelay n cfg (random n)) [1..<k])"
      using that(4,5) retryLoop_reaches[OF that(1,2,3), of random] by auto
    then show ?thesis using assms
      by (simp add: withRetry_def Let_def newActionAgentError_def msg)
  qed
  have none: "withRetry features random operation ctx retryConfig
      = (Inl (ActionAgentError ''Operation failed after retries''
               (correlationId ctx) (operationName ctx) False None), 0, [])"
    if "maxAttempts cfg = 0"
    using assms retryLoop_no_attempts[OF that, of operation random]
    by (simp add: withRetry_def Let_def newActionAgentError_def)
  have d1: "calculateBackoffDelay n cfg r
         = \<lfloor>cappedDelay n cfg + cappedDelay n cfg * jitterFactor cfg * (r - 1 / 2)\<rfloor>"
    by (simp add: calculateBackoffDelay_def Let_def)
  have d2: "cappedDelay n cfg = min (baseDelayMs cfg * 2 ^ (n - 1)) (maxDelayMs cfg)"
    by (simp add: cappedDelay_def Let_def)
  have allfail: "\<exists>m. fst (withRetry features random operation ctx retryConfig)
                = Inl (ActionAgentError m (correlationId ctx) (operationName ctx) False None)"
    if fails: "\<forall>i. 1 \<le> i \<and> i \<le> maxAttempts cfg \<longrightarrow> (\<exists>x. operation i = Inl x)"
  proof (cases "maxAttempts cfg = 0")
    case True
    from none[OF this] show ?thesis by simp
  next
    case False
    define Q where "Q j \<longleftrightarrow> 1 \<le> j \<and> j \<le> maxAttempts cfg
        \<and> (j = maxAttempts cfg \<or> (\<exists>x. operation j = Inl x \<and> \<not> isRetryableError x))" for j
    define j where "j = (LEAST j. Q j)"
    have "Q (maxAttempts cfg)" using False by (simp add: Q_def)
    then have Qj: "Q j" unfolding j_def by (rule LeastI)
    have least: "j \<le> i" if "Q i" for i
      unfolding j_def using that by (rule Least_le)
    from Qj have j: "1 \<le> j" "j \<le> maxAttempts cfg" by (simp_all add: Q_def)
    from fails j obtain x where x: "operation j = Inl x" by blast
    have last: "j = maxAttempts cfg \<or> \<not> isRetryableError x"
      using Qj x by (auto simp: Q_def)
    have before: "\<forall>i. 1 \<le> i \<and> i < j \<longrightarrow> (\<exists>e. operation i = Inl e \<and> isRetryableError e)"
    proof (intro allI impI)
      fix i assume i: "1 \<le> i \<and> i < j"
      with j fails obtain y where y: "operation i = Inl y" by force
      have "\<not> Q i" using least[of i] i by auto
      with i j y have "isRetryableError y" by (auto simp: Q_def)
      with y show "\<exists>e. operation i = Inl e \<and> isRetryableError e" by blast
    qed
    have "withRetry features random operation ctx retryConfig
      = (Inl (ActionAgentError
               (if errorMessage x = [] then ''Operation failed after retries''
                else errorMessage x)
               (correlationId ctx) (operationName ctx) False None),
         j, map (\<lambda>n. calculateBackoffDelay n cfg (random n)) [1..<j])"
      using assms retryLoop_reaches[OF j before, of random] x last
      by (auto simp: withRetry_def Let_def newActionAgentError_def msg)
    then show ?thesis by simp
  qed
  show ?thesis
    using ok bad none allfail d1 d2 cappedDelay_mono[of cfg n] by blast
qed

theorem withRetry_spec_witness:
  "withRetry exampleFeatures (\<lambda>n. 1 / 2) failsTwice exampleContext (None, None, None, None)
     = (Inr ''extracted'', 3, [1000, 2000])
   \<and> withRetry exampleFeatures (\<lambda>n. 1 / 2) alwaysFails exampleContext (None, None, None, None)
     = (Inl (ActionAgentError ''HTTP status: 503'' ''7d3f0c52-1b7e-4c1a-9a55-2f6f0e8b4d10''
              ''AI.ExtractActionItems'' False None), 3, [1000, 2000])"
proof -
  let ?cfg = "mergeRetryConfig (defaultRetryConfig exampleFeatures) (None, None, None, None)"
  have r: "isRetryableError (Error ''HTTP status: 503'')"
    by code_simp
  have f: "\<forall>i. 1 \<le> i \<and> i < 3 \<longrightarrow> (\<exists>e. failsTwice i = Inl e \<and> isRetryableError e)"
    using r by (simp add: failsTwice_def)
  have g: "\<forall>i. 1 \<le> i \<and> i < 3 \<longrightarrow> (\<exists>e. alwaysFails i = Inl e \<and> isRetryableError e)"
    using r by (simp add: alwaysFails_def)
  have m: "maxAttempts ?cfg = 3" "enableRetries exampleFeatures"
    by (simp_all add: defaultRetryConfig_def exampleFeatures_def)
  have s: "failsTwice 3 = Inr ''extracted''"
    by (simp add: failsTwice_def)
  have d: "map (\<lambda>n. calculateBackoffDelay n ?cfg (1 / 2)) [1..<3] = [1000, 2000]"
    by code_simp
  have one: "withRetry exampleFeatures (\<lambda>n. 1 / 2) failsTwice exampleContext
      (None, None, None, None) = (Inr ''extracted'', 3, [1000, 2000])"
    using withRetry_spec[where features = exampleFeatures and cfg = ?cfg
      and retryConfig = "(None, None, None, None)" and k = 3 and operation = failsTwice
      and v = "''extracted''" and random = "\<lambda>n. 1 / 2" and ctx = exampleContext
      and e = "Error []" and n = 1 and r = 0, OF m(2) refl]
      f m s d
    by simp
  have two: "withRetry exampleFeatures (\<lambda>n. 1 / 2) alwaysFails exampleContext
      (None, None, None, None)
      = (Inl (ActionAgentError ''HTTP status: 503'' ''7d3f0c52-1b7e-4c1a-9a55-2f6f0e8b4d10''
              ''AI.ExtractActionItems'' False None), 3, [1000, 2000])"
    using withRetry_spec[where features = exampleFeatures and cfg = ?cfg
      and retryConfig = "(None, None, None, None)" and k = 3 and operation = alwaysFails
      and v = "''extracted''" and random = "\<lambda>n. 1 / 2" and ctx = exampleContext
      and e = "Error ''HTTP status: 503''" and n = 1 and r = 0, OF m(2) refl]
      g m d
    by (simp add: alwaysFails_def exampleContext_def)
  from one two show ?thesis by simp
qed

section \<open>Batched delivery\<close>

lemma length_settleAll: "length (fst (settleAll f s xs)) = length xs"
proof (induction xs arbitrary: s)
  case Nil show ?case by simp
next
  case (Cons x xs)
  obtain r s' where f: "f s x = (r, s')" by (cases "f s x")
  obtain rs s'' where g: "settleAll f s' xs = (rs, s'')" by (cases "settleAll f s' xs")
  from Cons[of s'] f g show ?case by simp
qed

lemma settleAll_append:
  "settleAll f s (xs @ ys) =
     (case settleAll f s xs of (rs, s') \<Rightarrow>
        (case settleAll f s' ys of (rs', s'') \<Rightarrow> (rs @ rs', s'')))"
  by (induction xs arbitrary: s) (auto split: prod.splits)

lemma fulfilled_append: "fulfilled (xs @ ys) = fulfilled xs @ fulfilled ys"
  by (simp add: fulfilled_def map_filter_def)

lemma rejected_append:
  "length ts = length rs \<Longrightarrow>
   rejected (ts @ ts') (rs @ rs') = rejected ts rs @ rejected ts' rs'"
  by (simp add: rejected_def map_filter_def)

lemma collectSettled_eq:
  "length batch = length outs \<Longrightarrow>
   collectSettled batch outs acc = (fst acc @ fulfilled outs, snd acc @ rejected batch outs)"
proof (induction batch outs acc rule: collectSettled.induct)
  case (1 t ts v rs results errors)
  then show ?case by (simp add: fulfilled_def rejected_def map_filter_def)
next
  case (2 t ts e rs results errors)
  then show ?case by (simp add: fulfilled_def rejected_def map_filter_def)
qed (simp_all add: fulfilled_def rejected_def map_filter_def)

declare createWorkItemsLoop.simps [simp del]

lemma createWorkItemsLoop_eq:
  "createWorkItemsLoop create tasks i acc pauses s =
     (case settleAll create s (drop i tasks) of
        (outs, s') \<Rightarrow>
          (fst acc @ fulfilled outs, snd acc @ rejected (drop i tasks) outs,
           pauses + (length tasks - i - 1) div MAX_CONCURRENT, s'))"
proof (induction create tasks i acc pauses s rule: createWorkItemsLoop.induct)
  case (1 create tasks i acc pauses s)
  show ?case
  proof (cases "i < length tasks")
    case False
    then show ?thesis
      by (subst createWorkItemsLoop.simps)
         (simp add: fulfilled_def rejected_def map_filter_def MAX_CONCURRENT_def)
  next
    case True
    let ?batch = "take MAX_CONCURRENT (drop i tasks)"
    obtain outs s' where b: "settleAll create s ?batch = (outs, s')"
      by (cases "settleAll create s ?batch")
    have len: "length ?batch = length outs"
      using length_settleAll[of create s ?batch] b by simp
    have split: "drop i tasks = ?batch @ drop (i + MAX_CONCURRENT) tasks"
      by (metis add.commute append_take_drop_id drop_drop)
    obtain outs2 s2 where r: "settleAll create s' (drop (i + MAX_CONCURRENT) tasks) = (outs2, s2)"
      by (cases "settleAll create s' (drop (i + MAX_CONCURRENT) tasks)")
    have whole: "settleAll create s (drop i tasks) = (outs @ outs2, s2)"
      by (subst split) (simp add: settleAll_append b r)
    have rej: "rejected (drop i tasks) (outs @ outs2)
        = rejected ?batch outs @ rejected (drop (i + MAX_CONCURRENT) tasks) outs2"
      by (subst split) (rule rejected_append[OF len])
    have p: "(if i + MAX_CONCURRENT < length tasks then Suc pauses else pauses)
          + (length tasks - (i + MAX_CONCURRENT) - 1) div MAX_CONCURRENT
        = pauses + (length tasks - i - 1) div MAX_CONCURRENT"
      using True by (auto simp: MAX_CONCURRENT_def)
    have "createWorkItemsLoop create tasks i acc pauses s =
        createWorkItemsLoop create tasks (i + MAX_CONCURRENT)
          (collectSettled ?batch outs acc)
          (if i + MAX_CONCURRENT < length tasks then Suc pauses else pauses) s'"
      using True b by (subst createWorkItemsLoop.simps) (simp add: Let_def)
    also have "\<dots> =
        (fst (collectSettled ?batch outs acc) @ fulfilled outs2,
         snd (collectSettled ?batch outs acc) @ rejected (drop (i + MAX_CONCURRENT) tasks) outs2,
         (if i + MAX_CONCURRENT < length tasks then Suc pauses else pauses)
           + (length tasks - (i + MAX_CONCURRENT) - 1) div MAX_CONCURRENT, s2)"
      using "1.IH"[OF True refl b[symmetric]] r by simp
    finally show ?thesis
      by (simp only: whole prod.case rej p collectSettled_eq[OF len] fulfilled_append
            fst_conv snd_conv append_assoc)
  qed
qed

lemma settleAll_recording:
  "settleAll (recording create) (calls, s) tasks =
     (fst (settleAll create s tasks), (calls @ tasks, snd (settleAll create s tasks)))"
  by (induction tasks arbitrary: calls s) (auto simp: recording_def split: prod.splits)

lemma length_fulfilled_rejected:
  "length ts = length outs \<Longrightarrow> length (fulfilled outs) + length (rejected ts outs) = length ts"
  by (induction ts outs rule: list_induct2)
     (auto simp: fulfilled_def rejected_def map_filter_def split: sum.splits)

lemma createWorkItems_eq:
  "createWorkItems create tasks s =
     (fulfilled (fst (settleAll create s tasks)),
      rejected tasks (fst (settleAll create s tasks)),
      (length tasks - 1) div MAX_CONCURRENT,
      snd (settleAll create s tasks))"
  by (simp add: createWorkItems_def createWorkItemsLoop_eq split: prod.splits)

text \<open>
  Claim C4. A failed creation does not abort or skip the other items of the list: the
  creation of every item is attempted, once and in order; the returned list holds one
  record for each creation that succeeded, the failed items being recorded apart; the call
  itself returns. Delivering three items when only the second creation fails returns
  exactly two records.
\<close>

theorem createWorkItems_spec:
  "createWorkItems create tasks s =
     (fulfilled (fst (settleAll create s tasks)),
      rejected tasks (fst (settleAll create s tasks)),
      (length tasks - 1) div MAX_CONCURRENT,
      snd (settleAll create s tasks))
   \<and> length (fulfilled (fst (settleAll create s tasks)))
       + length (rejected tasks (fst (settleAll create s tasks))) = length tasks
   \<and> fst (snd (snd (snd (createWorkItems (recording create) tasks ([], s))))) = tasks
   \<and> (\<forall>a b c x e z s1 s2 s3.
         tasks = [a, b, c] \<and> create s a = (Inr x, s1) \<and> create s1 b = (Inl e, s2)
         \<and> create s2 c = (Inr z, s3)
         \<longrightarrow> fst (createWorkItems create tasks s) = [x, z])"
proof -
  note eq = createWorkItems_eq[of create tasks s]
  have len: "length (fulfilled (fst (settleAll create s tasks)))
       + length (rejected tasks (fst (settleAll create s tasks))) = length tasks"
    by (rule length_fulfilled_rejected) (simp add: length_settleAll)
  have log: "fst (snd (snd (snd (createWorkItems (recording create) tasks ([], s))))) = tasks"
    by (simp add: createWorkItems_eq settleAll_recording)
  have three: "fst (createWorkItems create tasks s) = [x, z]"
    if "tasks = [a, b, c]" "create s a = (Inr x, s1)" "create s1 b = (Inl e, s2)"
      "create s2 c = (Inr z, s3)" for a b c x e z s1 s2 s3
    using that by (simp add: createWorkItems_eq fulfilled_def map_filter_def)
  show ?thesis using eq len log three by blast
qed

theorem createWorkItems_spec_witness:
  "fst (createWorkItems failsOnSecond
          [exItem ''Fix login bug'' None, exItem ''Update docs'' None,
           exItem ''Rotate API keys'' None] 0) = [1000, 1002]"
proof -
  let ?tasks = "[exItem ''Fix login bug'' None, exItem ''Update docs'' None,
           exItem ''Rotate API keys'' None]"
  have c: "failsOnSecond 0 (exItem ''Fix login bug'' None) = (Inr 1000, 1)"
    "failsOnSecond 1 (exItem ''Update docs'' None)
       = (Inl (Error ''TF401320: Rule Error for field Title''), 2)"
    "failsOnSecond 2 (exItem ''Rotate API keys'' None) = (Inr 1002, 3)"
    by (simp_all add: failsOnSecond_def)
  from createWorkItems_spec[of failsOnSecond ?tasks 0] c show ?thesis
    by blast
qed

section \<open>Deduplication\<close>


lemma set_firstSeen: "set (firstSeen xs) = set xs"
  by (induction xs rule: firstSeen.induct) auto

lemma distinct_firstSeen: "distinct (firstSeen xs)"
  by (induction xs rule: firstSeen.induct) (auto simp: set_firstSeen)

lemma firstSeen_distinct: "distinct xs \<Longrightarrow> firstSeen xs = xs"
proof (induction xs)
  case Nil show ?case by simp
next
  case (Cons a xs)
  then have "filter (\<lambda>y. y \<noteq> a) xs = xs" by (auto simp: filter_id_conv)
  with Cons show ?case by simp
qed


lemma map_fst_mapSet_new: "k \<notin> fst ` set m \<Longrightarrow> mapSet m k v = m @ [(k, v)]"
  by (induction m k v rule: mapSet.induct) auto














section \<open>The three accepted response shapes\<close>

text \<open>
  Claim C6. A bare array, an object with an \<open>actionItems\<close> array and an object with a
  \<open>tasks\<close> array (and no \<open>actionItems\<close> array), holding the same items, give the same
  outcome: the same normalised items in the same order, namely the validated items that
  have a title, or the same error when validating an item throws.
\<close>

theorem validator_shapes_agree:
  assumes "JSON_parse bare = Some (JArr items)"
    and "JSON_parse wrapped = Some (JObj kvs)"
    and "map_of kvs ''actionItems'' = Some (JArr items)"
    and "JSON_parse aliased = Some (JObj kvs')"
    and "\<not> isArray (map_of kvs' ''actionItems'')"
    and "map_of kvs' ''tasks'' = Some (JArr items)"
  shows "map_sum id actionItems (parseAndValidateResponse JSON_parse wrapped context)
           = map_sum id actionItems (parseAndValidateResponse JSON_parse bare context)
       \<and> map_sum id actionItems (parseAndValidateResponse JSON_parse aliased context)
           = map_sum id actionItems (parseAndValidateResponse JSON_parse bare context)
       \<and> map_sum id actionItems (parseAndValidateResponse JSON_parse bare context)
           = (case mapThrowing validateItem (filter hasTitle items) of
                None \<Rightarrow> Inl (newActionAgentError ''Failed to parse AI response as JSON''
                               context None None)
              | Some validatedItems \<Rightarrow> Inr validatedItems)"
  using assms
  by (simp add: parseAndValidateResponse_def validatedResponse_def split: option.splits)

theorem validator_shapes_agree_witness:
  "map_sum id actionItems (parseAndValidateResponse exampleParse actionItemsText exampleContext)
     = Inr exampleValidated
   \<and> map_sum id actionItems (parseAndValidateResponse exampleParse tasksText exampleContext)
     = Inr exampleValidated
   \<and> map_sum id actionItems (parseAndValidateResponse exampleParse bareArrayText exampleContext)
     = Inr exampleValidated"
proof -
  have texts: "bareArrayText \<noteq> ''null''" "actionItemsText \<noteq> ''null''" "tasksText \<noteq> ''null''"
    "actionItemsText \<noteq> bareArrayText" "tasksText \<noteq> bareArrayText"
    "tasksText \<noteq> actionItemsText"
    by (simp_all add: bareArrayText_def actionItemsText_def tasksText_def)
  have p1: "exampleParse bareArrayText = Some (JArr exampleItems)"
    and p2: "exampleParse actionItemsText
             = Some (JObj [(''actionItems'', JArr exampleItems), (''summary'', JStr ''Login work'')])"
    and p3: "exampleParse tasksText = Some (JObj [(''tasks'', JArr exampleItems)])"
    using texts by (simp_all add: exampleParse_def)
  have ev: "mapThrowing validateItem (filter hasTitle exampleItems) = Some exampleValidated"
    by code_simp
  from validator_shapes_agree[OF p1 p2 _ p3, of exampleContext] ev show ?thesis
    by simp
qed

section \<open>Normalisation of type and priority\<close>







section \<open>The caption normaliser\<close>

subsection \<open>Single-spaced, trimmed text\<close>

lemma singleSpaced_Cons:
  "singleSpaced (c # xs) \<longleftrightarrow>
     (\<not> isSpace c \<or> (c = CHR '' '' \<and> (xs = [] \<or> \<not> isSpace (hd xs)))) \<and> singleSpaced xs"
  by (cases xs) (auto simp: isSpace_def)

lemma hd_collapseRuns:
  "s \<noteq> [] \<Longrightarrow> \<not> P (hd s) \<Longrightarrow> collapseRuns P s \<noteq> [] \<and> hd (collapseRuns P s) = hd s"
  by (cases s) auto

lemma collapseRuns_Nil_iff: "collapseRuns P s = [] \<longleftrightarrow> s = []"
  by (cases s) auto

lemma singleSpaced_collapseRuns: "singleSpaced (collapseRuns isSpace s)"
proof (induction isSpace s rule: collapseRuns.induct)
  case 1
  show ?case by simp
next
  case (2 c cs)
  show ?case
  proof (cases "isSpace c")
    case True
    define r where "r = dropWhile isSpace cs"
    have "collapseRuns isSpace r = [] \<or> \<not> isSpace (hd (collapseRuns isSpace r))"
    proof (cases "r = []")
      case True then show ?thesis by simp
    next
      case False
      then have "\<not> isSpace (hd r)" unfolding r_def by (rule hd_dropWhile)
      with False hd_collapseRuns[of r isSpace] show ?thesis by simp
    qed
    then have "collapseRuns isSpace (dropWhile isSpace cs) = []
        \<or> \<not> isSpace (hd (collapseRuns isSpace (dropWhile isSpace cs)))"
      by (simp only: r_def)
    with True 2 show ?thesis by (simp add: singleSpaced_Cons)
  next
    case False
    with 2 show ?thesis by (simp add: singleSpaced_Cons)
  qed
qed

lemma collapseRuns_singleSpaced: "singleSpaced t \<Longrightarrow> collapseRuns isSpace t = t"
proof (induction t)
  case Nil show ?case by simp
next
  case (Cons c cs)
  then have ss: "singleSpaced cs" and
    c: "\<not> isSpace c \<or> (c = CHR '' '' \<and> (cs = [] \<or> \<not> isSpace (hd cs)))"
    by (simp_all add: singleSpaced_Cons)
  show ?case
  proof (cases "isSpace c")
    case False
    with Cons.IH[OF ss] show ?thesis by simp
  next
    case True
    with c have "c = CHR '' ''" "cs = [] \<or> \<not> isSpace (hd cs)" by auto
    then have "dropWhile isSpace cs = cs" by (cases cs) auto
    with True \<open>c = CHR '' ''\<close> Cons.IH[OF ss] show ?thesis by simp
  qed
qed

lemma singleSpaced_append: "singleSpaced (xs @ ys) \<Longrightarrow> singleSpaced xs \<and> singleSpaced ys"
proof (induction xs)
  case Nil then show ?case by simp
next
  case (Cons x xs)
  then have "singleSpaced (xs @ ys)" by (simp add: singleSpaced_Cons)
  with Cons.IH have "singleSpaced xs" "singleSpaced ys" by simp_all
  moreover have "\<not> isSpace x \<or> (x = CHR '' '' \<and> (xs = [] \<or> \<not> isSpace (hd xs)))"
    using Cons.prems by (cases xs) (auto simp: singleSpaced_Cons)
  ultimately show ?case by (simp add: singleSpaced_Cons)
qed

lemma trim_decompose:
  "u = takeWhile isSpace u @ trim u @ rev (takeWhile isSpace (rev (dropWhile isSpace u)))"
proof -
  let ?v = "dropWhile isSpace u"
  have "rev ?v = takeWhile isSpace (rev ?v) @ dropWhile isSpace (rev ?v)" by simp
  then have "?v = rev (dropWhile isSpace (rev ?v)) @ rev (takeWhile isSpace (rev ?v))"
    by (metis rev_append rev_rev_ident)
  then have "?v = trim u @ rev (takeWhile isSpace (rev ?v))"
    by (simp add: trim_def trimStart_def trimEnd_def)
  then show ?thesis by (metis takeWhile_dropWhile_id)
qed

lemma singleSpaced_trim: "singleSpaced u \<Longrightarrow> singleSpaced (trim u)"
  using trim_decompose[of u] singleSpaced_append by metis

lemma set_trim: "set (trim u) \<subseteq> set u"
  using trim_decompose[of u] by (metis Un_upper1 Un_upper2 set_append subset_trans)

lemma length_trim_le: "length (trim u) \<le> length u"
  using arg_cong[OF trim_decompose[of u], of length] by simp

lemma trimEnd_keeps_head:
  "v \<noteq> [] \<Longrightarrow> \<not> isSpace (hd v) \<Longrightarrow> trimEnd v \<noteq> [] \<and> hd (trimEnd v) = hd v"
proof -
  assume "v \<noteq> []" "\<not> isSpace (hd v)"
  then obtain a w where v: "v = a # w" "\<not> isSpace a" by (cases v) auto
  have "dropWhile isSpace (rev w @ [a]) = dropWhile isSpace (rev w) @ [a]"
    using v(2) by (simp add: dropWhile_append)
  then show ?thesis by (simp add: v trimEnd_def)
qed

lemma trimStart_trim: "trimStart (trim u) = trim u"
proof -
  define v where "v = dropWhile isSpace u"
  have t: "trim u = trimEnd v" by (simp add: trim_def trimStart_def v_def)
  show ?thesis
  proof (cases "v = []")
    case True
    then show ?thesis by (simp add: t trimStart_def trimEnd_def)
  next
    case False
    then have h: "\<not> isSpace (hd v)" unfolding v_def by (rule hd_dropWhile)
    from trimEnd_keeps_head[OF False h] h
    have "trimEnd v \<noteq> []" "\<not> isSpace (hd (trimEnd v))" by simp_all
    then show ?thesis unfolding t by (cases "trimEnd v") (simp_all add: trimStart_def)
  qed
qed

lemma trimEnd_idem: "trimEnd (trimEnd v) = trimEnd v"
  by (simp add: trimEnd_def dropWhile_idem)

lemma trim_idem: "trim (trim u) = trim u"
proof -
  have "trim (trim u) = trimEnd (trim u)" by (simp add: trim_def[of "trim u"] trimStart_trim)
  also have "\<dots> = trim u" by (simp add: trim_def[of u] trimEnd_idem)
  finally show ?thesis .
qed

lemma singleSpaced_space: "singleSpaced t \<Longrightarrow> c \<in> set t \<Longrightarrow> isSpace c \<Longrightarrow> c = CHR '' ''"
  by (induction t) (auto simp: singleSpaced_Cons)

lemma splitBy_none: "\<forall>c\<in>set s. \<not> P c \<Longrightarrow> splitBy P s = [s]"
  by (induction s) auto

lemma trim_Nil: "trim [] = []"
  by (simp add: trim_def trimStart_def trimEnd_def)

subsection \<open>The output of the normaliser\<close>

lemma parseVttToText_shape:
  "singleSpaced (parseVttToText s) \<and> trim (parseVttToText s) = parseVttToText s
   \<and> CHR 0x0A \<notin> set (parseVttToText s)"
proof -
  have a: "singleSpaced (trim (collapseRuns isSpace j))" for j
    by (rule singleSpaced_trim[OF singleSpaced_collapseRuns])
  have b: "CHR 0x0A \<notin> set t" if "singleSpaced t" for t
    using singleSpaced_space[OF that, of "CHR 0x0A"] by (auto simp: isSpace_def)
  show ?thesis
    using a b by (auto simp: parseVttToText_def trim_idem trim_Nil split: prod.splits)
qed

subsection \<open>Re-normalising\<close>

lemma length_collapseRuns_le: "length (collapseRuns P s) \<le> length s"
proof (induction P s rule: collapseRuns.induct)
  case (1 P) show ?case by simp
next
  case (2 P c cs)
  show ?case
  proof (cases "P c")
    case True
    with 2 length_dropWhile_le[of P cs] show ?thesis by simp
  next
    case False
    with 2 show ?thesis by simp
  qed
qed

lemma length_dropClosingTag_le: "length (dropClosingTag m) \<le> length m"
  by (simp add: dropClosingTag_def)

lemma speakerMatchHere_length:
  assumes "speakerMatchHere s = Some (sp, m)"
  shows "sp \<noteq> [] \<and> length sp + length m + 4 \<le> length s"
proof -
  define r where "r = drop 3 s"
  define name where "name = takeWhile (\<lambda>c. c \<noteq> CHR ''>'') r"
  define rest where "rest = dropWhile (\<lambda>c. c \<noteq> CHR ''>'') r"
  from assms have p: "prefix ''<v '' s"
    by (auto simp: speakerMatchHere_def split: if_splits)
  with assms have ok: "name \<noteq> []" "rest \<noteq> []" "sp = name" "length m \<le> length (tl rest)"
    by (auto simp: speakerMatchHere_def Let_def r_def name_def rest_def split: if_splits)
  from ok(2) obtain g body where rest: "rest = g # body" by (cases rest) auto
  have l1: "length s = 3 + length r" using p by (auto simp: prefix_def r_def)
  have "name @ rest = r" unfolding name_def rest_def by (rule takeWhile_dropWhile_id)
  then have "length (name @ rest) = length r" by (rule arg_cong)
  then have l2: "length r = length name + Suc (length body)" by (simp add: rest)
  have l3: "length m \<le> length body" using ok(4) by (simp add: rest)
  have "length name + length m + 4 \<le> length s" using l1 l2 l3 by linarith
  then show ?thesis using ok(1,3) by simp
qed

lemma speakerMatch_length:
  "speakerMatch t = Some (sp, m) \<Longrightarrow> sp \<noteq> [] \<and> length sp + length m + 4 \<le> length t"
proof (induction t)
  case Nil then show ?case by simp
next
  case (Cons c cs)
  show ?case
  proof (cases "speakerMatchHere (c # cs)")
    case None
    with Cons.prems have "speakerMatch cs = Some (sp, m)" by simp
    from Cons.IH[OF this] show ?thesis by simp
  next
    case (Some x)
    with Cons.prems have "speakerMatchHere (c # cs) = Some (sp, m)" by simp
    from speakerMatchHere_length[OF this] show ?thesis .
  qed
qed

lemma join_single: "join sep [x] = x"
  by simp

text \<open>One trimmed, non-empty line, read from the initial state.\<close>

lemma vttLines_single:
  assumes "trim t = t" "t \<noteq> []"
  shows "vttLines [t] ([], []) =
     (if t = ''WEBVTT'' \<or> startsWith t ''NOTE'' \<or> includesStr t '' --> '' \<or> list_all isDigit t
      then ([], [])
      else (case speakerMatch t of
              Some (speaker, matched) \<Rightarrow>
                ([CHR 0x0A # speaker @ '':'', dropClosingTag matched], speaker)
            | None \<Rightarrow> ([t], [])))"
proof (cases "speakerMatch t")
  case None
  with assms show ?thesis by (simp add: Let_def)
next
  case (Some x)
  obtain sp m where x: "x = (sp, m)" by (cases x)
  from speakerMatch_length[of t sp m] Some x have "sp \<noteq> []" by simp
  with assms Some x show ?thesis by (simp add: Let_def)
qed

text \<open>
  Claim C8, as the code has it. Normalising a normalised text \<open>t\<close> again returns \<open>t\<close>
  exactly when \<open>t\<close> is empty or is not itself read as caption markup: \<open>t\<close> is not the
  header \<open>WEBVTT\<close>, does not start with \<open>NOTE\<close>, does not contain the timing arrow, is
  not made of digits only, and holds no speaker tag followed by text.
\<close>

theorem parseVttToText_fixed_point:
  assumes "t = parseVttToText s"
  shows "parseVttToText t = t \<longleftrightarrow>
     (t = [] \<or>
      (t \<noteq> ''WEBVTT'' \<and> \<not> startsWith t ''NOTE'' \<and> \<not> includesStr t '' --> ''
       \<and> \<not> list_all isDigit t \<and> speakerMatch t = None))"
proof (cases "t = []")
  case True
  then show ?thesis by (simp add: parseVttToText_def)
next
  case False
  from parseVttToText_shape[of s] assms
  have ss: "singleSpaced t" and tr: "trim t = t" and nl: "CHR 0x0A \<notin> set t" by simp_all
  have lines: "splitOn (CHR 0x0A) t = [t]"
    unfolding splitOn_def using nl by (intro splitBy_none) auto
  have p: "parseVttToText t =
      (case vttLines [t] ([], []) of
         (textLines, currentSpeaker) \<Rightarrow> trim (collapseRuns isSpace (join '' '' textLines)))"
    using False by (simp add: parseVttToText_def lines)
  show ?thesis
  proof (cases "t = ''WEBVTT'' \<or> startsWith t ''NOTE'' \<or> includesStr t '' --> ''
      \<or> list_all isDigit t")
    case True
    then have "parseVttToText t = []"
      by (simp del: vttLines.simps add: p vttLines_single[OF tr False] trim_Nil)
    with True False show ?thesis by auto
  next
    case notSkipped: False
    show ?thesis
    proof (cases "speakerMatch t")
      case None
      with notSkipped have "parseVttToText t = t"
        by (simp del: vttLines.simps
              add: p vttLines_single[OF tr False] collapseRuns_singleSpaced[OF ss] tr)
      with notSkipped None show ?thesis by simp
    next
      case (Some x)
      obtain sp m where x: "x = (sp, m)" by (cases x)
      let ?j = "join '' '' [CHR 0x0A # sp @ '':'', dropClosingTag m]"
      have "parseVttToText t = trim (collapseRuns isSpace ?j)"
        using notSkipped Some x
        by (simp del: vttLines.simps add: p vttLines_single[OF tr False])
      moreover have "length (trim (collapseRuns isSpace ?j)) \<le> length ?j"
        using length_trim_le[of "collapseRuns isSpace ?j"] length_collapseRuns_le[of isSpace ?j]
        by (rule order_trans)
      moreover have "length ?j \<le> length sp + length m + 3"
        using length_dropClosingTag_le[of m] by simp
      moreover have "length sp + length m + 4 \<le> length t"
        using speakerMatch_length[of t sp m] Some x by simp
      ultimately have "length (parseVttToText t) < length t" by simp
      then have "parseVttToText t \<noteq> t" by auto
      with False Some show ?thesis by simp
    qed
  qed
qed

theorem parseVttToText_fixed_point_witness:
  "parseVttToText exampleVtt = ''Sam: I will fix the login bug. Jess: Sounds good.''
   \<and> parseVttToText (parseVttToText exampleVtt) = parseVttToText exampleVtt"
proof -
  let ?t = "''Sam: I will fix the login bug. Jess: Sounds good.''"
  have ev: "parseVttToText exampleVtt = ?t"
    by code_simp
  have c: "?t \<noteq> ''WEBVTT''" "\<not> startsWith ?t ''NOTE''" "\<not> includesStr ?t '' --> ''"
    "\<not> list_all isDigit ?t" "speakerMatch ?t = None"
    by code_simp+
  from parseVttToText_fixed_point[OF ev[symmetric]] c ev show ?thesis
    by simp
qed

text \<open>
  Claim C8 as stated, that normalising is idempotent on every caption text, fails on the
  caption of the end-to-end scenario: its second speaker tag stays in the normalised text,
  and normalising again reads it as markup and drops what the first speaker said.
\<close>

theorem parseVttToText_not_idempotent:
  "parseVttToText scenarioCaption
     = ''Sam: I will fix the login timeout bug by tomorrow. <v Jess>Sounds good, thanks.''
   \<and> parseVttToText (parseVttToText scenarioCaption) = ''Jess: Sounds good, thanks.''"
  by code_simp

section \<open>Batch identity resolution\<close>

lemma setAll_fresh:
  "length ks = length rs \<Longrightarrow> distinct (map fst results @ ks) \<Longrightarrow>
   setAll results ks rs = results @ zip ks rs"
proof (induction ks rs arbitrary: results rule: list_induct2)
  case Nil then show ?case by simp
next
  case (Cons k ks r rs)
  have fresh: "k \<notin> fst ` set results" using Cons.prems by auto
  have "distinct (map fst (results @ [(k, r)]) @ ks)" using Cons.prems by auto
  from Cons.IH[OF this] show ?case by (simp add: map_fst_mapSet_new[OF fresh])
qed

declare resolveUsersLoop.simps [simp del]

lemma resolveUsersLoop_eq:
  "distinct (map fst results @ drop i uniqueNames) \<Longrightarrow>
   resolveUsersLoop search uniqueNames i results s =
     (case settleAll (resolveUser search) s (drop i uniqueNames) of
        (rs, s') \<Rightarrow> (results @ zip (drop i uniqueNames) rs, s'))"
proof (induction search uniqueNames i results s rule: resolveUsersLoop.induct)
  case (1 search uniqueNames i results s)
  show ?case
  proof (cases "i < length uniqueNames")
    case False
    then show ?thesis by (subst resolveUsersLoop.simps) simp
  next
    case True
    let ?batch = "take BATCH_SIZE (drop i uniqueNames)"
    let ?rest = "drop (i + BATCH_SIZE) uniqueNames"
    obtain rs s' where b: "settleAll (resolveUser search) s ?batch = (rs, s')"
      by (cases "settleAll (resolveUser search) s ?batch")
    have len: "length ?batch = length rs"
      using length_settleAll[of "resolveUser search" s ?batch] b by simp
    have split: "drop i uniqueNames = ?batch @ ?rest"
      by (metis add.commute append_take_drop_id drop_drop)
    obtain rs2 s2 where r: "settleAll (resolveUser search) s' ?rest = (rs2, s2)"
      by (cases "settleAll (resolveUser search) s' ?rest")
    have whole: "settleAll (resolveUser search) s (drop i uniqueNames) = (rs @ rs2, s2)"
      by (subst split) (simp add: settleAll_append b r)
    have d: "distinct (map fst results @ ?batch @ ?rest)"
      using "1.prems" split by simp
    then have d1: "distinct (map fst results @ ?batch)" by auto
    have set: "setAll results ?batch rs = results @ zip ?batch rs"
      by (rule setAll_fresh[OF len d1])
    have d2: "distinct (map fst (setAll results ?batch rs) @ ?rest)"
      using d len by (simp add: set)
    have z: "zip (drop i uniqueNames) (rs @ rs2) = zip ?batch rs @ zip ?rest rs2"
      by (subst split) (rule zip_append[OF len])
    have "resolveUsersLoop search uniqueNames i results s =
        resolveUsersLoop search uniqueNames (i + BATCH_SIZE) (setAll results ?batch rs) s'"
      using True b by (subst resolveUsersLoop.simps) (simp add: Let_def)
    also have "\<dots> = (setAll results ?batch rs @ zip ?rest rs2, s2)"
      using "1.IH"[OF True refl b[symmetric] d2] r by simp
    finally show ?thesis
      by (simp only: whole prod.case z set append_assoc)
  qed
qed

lemma originalName_resolveUser: "originalName (fst (resolveUser search s name)) = name"
  by (auto simp: resolveUser_def split: prod.splits sum.splits list.splits)

lemma originalName_settleAll:
  "map originalName (fst (settleAll (resolveUser search) s names)) = names"
proof (induction names arbitrary: s)
  case Nil show ?case by simp
next
  case (Cons n ns)
  obtain r s' where f: "resolveUser search s n = (r, s')" by (cases "resolveUser search s n")
  obtain rs s'' where g: "settleAll (resolveUser search) s' ns = (rs, s'')"
    by (cases "settleAll (resolveUser search) s' ns")
  from Cons[of s'] f g originalName_resolveUser[of search s n] show ?case by simp
qed

text \<open>
  Claim C9, as the code has it. \<open>resolveUsers\<close> first drops the empty name and the
  literal \<open>Unassigned\<close>; the mapping returned has exactly one entry for every other
  distinct input name, in first-seen order, keyed by the name as supplied (two names that
  differ in case are two keys), and the entry of a name is the resolution of that name.
\<close>

theorem resolveUsers_keys:
  "map fst (fst (resolveUsers search names s))
     = firstSeen (filter (\<lambda>n. n \<noteq> [] \<and> n \<noteq> ''Unassigned'') names)
   \<and> distinct (map fst (fst (resolveUsers search names s)))
   \<and> map (originalName \<circ> snd) (fst (resolveUsers search names s))
     = map fst (fst (resolveUsers search names s))
   \<and> (\<forall>n. n \<in> fst ` set (fst (resolveUsers search names s))
         \<longleftrightarrow> n \<in> set names \<and> n \<noteq> [] \<and> n \<noteq> ''Unassigned'')"
proof -
  let ?U = "firstSeen (filter (\<lambda>n. n \<noteq> [] \<and> n \<noteq> ''Unassigned'') names)"
  let ?rs = "fst (settleAll (resolveUser search) s ?U)"
  have len: "length ?rs = length ?U" by (rule length_settleAll)
  have eq: "fst (resolveUsers search names s) = zip ?U ?rs"
    by (simp add: resolveUsers_def Let_def resolveUsersLoop_eq distinct_firstSeen
          split: prod.splits)
  have keys: "map fst (fst (resolveUsers search names s)) = ?U"
    using len by (simp add: eq)
  have "map snd (zip ?U ?rs) = ?rs"
    using len by (simp add: map_snd_zip)
  then have vals: "map (originalName \<circ> snd) (fst (resolveUsers search names s)) = ?U"
    using originalName_settleAll[of search s ?U] by (simp add: eq flip: map_map)
  have mem: "n \<in> fst ` set (fst (resolveUsers search names s))
         \<longleftrightarrow> n \<in> set names \<and> n \<noteq> [] \<and> n \<noteq> ''Unassigned''" for n
    using arg_cong[OF keys, of set] by (auto simp: set_firstSeen simp flip: set_map)
  show ?thesis using keys vals mem distinct_firstSeen[of "filter (\<lambda>n. n \<noteq> [] \<and> n \<noteq> ''Unassigned'') names"]
    by simp
qed

theorem resolveUsers_keys_witness:
  "map fst (fst (resolveUsers emptyDirectory [''Sam'', [], ''sam'', ''Sam''] ()))
     = [''Sam'', ''sam'']"
  using resolveUsers_keys[of emptyDirectory "[''Sam'', [], ''sam'', ''Sam'']" "()"]
  by simp

text \<open>
  Claim C9 as stated, one entry for every unique input name, fails for the name
  \<open>Unassigned\<close>, which gets no entry.
\<close>

theorem resolveUsers_skips_unassigned:
  "map fst (fst (resolveUsers emptyDirectory [''Sam'', ''Unassigned''] ())) = [''Sam'']"
  by code_simp

section \<open>The assignee of the backend record\<close>

text \<open>
  Claim C10. When the effective assignee identity is empty or the literal \<open>Unassigned\<close>,
  the record assigns \<open>System.AssignedTo\<close> to the configured triage user, and leaves the
  field out only when no triage user is configured.
\<close>

theorem unassigned_goes_to_triage:
  assumes "assigneeIdentity = [] \<or> assigneeIdentity = ''Unassigned''"
  shows "fieldValues ''/fields/System.AssignedTo''
           (buildPatchDocument cfg parseDeadline task assigneeIdentity cid)
         = (if triageUser cfg \<noteq> [] then [StringValue (triageUser cfg)] else [])"
  using assms
  by (auto simp: fieldValues_def buildPatchDocument_def split: option.splits)

theorem unassigned_goes_to_triage_witness:
  "fieldValues ''/fields/System.AssignedTo''
     (buildPatchDocument exampleDevOps (\<lambda>d. None) (exItem ''Update docs'' None)
        ''Unassigned'' ''7d3f0c52-1b7e-4c1a-9a55-2f6f0e8b4d10'')
   = [StringValue ''triage@contoso.com'']"
  using unassigned_goes_to_triage[of "''Unassigned''" exampleDevOps "\<lambda>d. None"
      "exItem ''Update docs'' None" "''7d3f0c52-1b7e-4c1a-9a55-2f6f0e8b4d10''"]
  by (simp add: exampleDevOps_def)

end
